theory Spec2Isabelle
  imports Main "HOL-Library.Sublist"
begin

section \<open>JavaScript values and strings\<close>

text \<open>
  The module \<open>src/lib/utils.jsx\<close> is JavaScript. A JavaScript string is a sequence of
  UTF-16 code units; the model is the list of their values. \<open>lit\<close> gives the string of
  a literal, \<open>code\<close> the code unit of a character. What the code throws is a value of
  \<open>error\<close>, and a function that may throw returns \<open>error + 'a\<close>.
\<close>

type_synonym jsstring = "nat list"

definition code :: "char \<Rightarrow> nat" where
  "code c = of_char c"

definition lit :: "string \<Rightarrow> jsstring" where
  "lit s = map code s"

datatype error =
    AssertionError string
  | TypeError string
  | URIError
  | Unsupported string

text \<open>\<open>n.toString(16)\<close>: lower-case hexadecimal digits, no padding.\<close>

definition hexDigit :: "nat \<Rightarrow> char" where
  "hexDigit d = ''0123456789abcdef'' ! (d mod 16)"

function toString16 :: "nat \<Rightarrow> string" where
  "toString16 n = (if n < 16 then [hexDigit n] else toString16 (n div 16) @ [hexDigit (n mod 16)])"
  by pat_completeness auto
termination
  by (relation "measure id") auto

declare toString16.simps [simp del]

subsection \<open>Regular expressions built from an escaped literal\<close>

text \<open>
  \<open>escapeForRegularExpression\<close> puts a backslash (code \<open>0x5C\<close>) before each of
  the characters \<open>- [ ] / { } ( ) * + ? . ^ $ |\<close> and before the backslash itself: the
  replacement pattern of the source is a backslash followed by the match.
\<close>

definition regexpSpecial :: "nat \<Rightarrow> bool" where
  "regexpSpecial c = (c \<in> set (lit ''-[]/{}()*+?.^$|'' @ [0x5C]))"

fun escapeForRegularExpression :: "jsstring \<Rightarrow> jsstring" where
  "escapeForRegularExpression [] = []"
| "escapeForRegularExpression (c # cs) =
     (if regexpSpecial c then 0x5C # c # escapeForRegularExpression cs
      else c # escapeForRegularExpression cs)"

text \<open>
  \<open>new RegExp(source, 'g')\<close>, for the sources this module builds: a source made of
  ordinary characters and of backslash-escaped special characters denotes the literal
  text it spells. Any other source (an unescaped special character, a class escape such
  as a backslash before a letter) is outside this model and gives \<open>None\<close>.
\<close>

fun regExpLiteral :: "jsstring \<Rightarrow> jsstring option" where
  "regExpLiteral [] = Some []"
| "regExpLiteral [c] = (if regexpSpecial c then None else Some [c])"
| "regExpLiteral (c # d # cs) =
     (if c = 0x5C then
        (if regexpSpecial d then map_option ((#) d) (regExpLiteral cs) else None)
      else if regexpSpecial c then None
      else map_option ((#) c) (regExpLiteral (d # cs)))"

text \<open>
  \<open>string.replace(regExp, replacer)\<close> for a global regular expression that denotes the
  literal \<open>needle\<close>: the string is scanned from the left, each match is replaced by the
  replacer's value on the matched text, and the scan goes on after the match. The empty
  needle matches before every character and at the end.
\<close>

function replaceGlobal :: "jsstring \<Rightarrow> (jsstring \<Rightarrow> jsstring) \<Rightarrow> jsstring \<Rightarrow> jsstring" where
  "replaceGlobal needle f [] = (if needle = [] then f [] else [])"
| "replaceGlobal needle f (c # cs) =
     (if needle = [] then f [] @ c # replaceGlobal needle f cs
      else if prefix needle (c # cs)
        then f needle @ replaceGlobal needle f (drop (length needle) (c # cs))
      else c # replaceGlobal needle f cs)"
  by pat_completeness auto
termination
  by (relation "measure (\<lambda>(needle, f, s). length s)") (auto simp: Suc_diff_le)

subsection \<open>escapeChar and unescapeChar\<close>

text \<open>
  The replacer of \<open>escapeChar\<close>, \<open>'%' + c.charCodeAt(0).toString(16)\<close>:
  \<open>charCodeAt(0)\<close> is the first code unit, and \<open>NaN\<close> of the empty string.
\<close>

fun percentCode :: "jsstring \<Rightarrow> jsstring" where
  "percentCode [] = lit ''%NaN''"
| "percentCode (c # cs) = code CHR ''%'' # lit (toString16 c)"

text \<open>
  \<open>escapeChar(character, string)\<close> asserts that \<open>character\<close> has length 1 and replaces
  every occurrence of it by \<open>'%'\<close> followed by the hexadecimal code of the matched
  character.
\<close>

definition escapeChar :: "jsstring \<Rightarrow> jsstring \<Rightarrow> error + jsstring" where
  "escapeChar character string =
     (if length character \<noteq> 1 then Inl (AssertionError ''character must have length 1'')
      else case regExpLiteral (escapeForRegularExpression character) of
          None \<Rightarrow> Inl (Unsupported ''RegExp'')
        | Some needle \<Rightarrow> Inr (replaceGlobal needle percentCode string))"

text \<open>
  \<open>unescapeChar(character, string)\<close> replaces every occurrence of \<open>'%'\<close> followed by
  the hexadecimal code of \<open>character\<close> by \<open>character\<close>.
\<close>

definition unescapeChar :: "jsstring \<Rightarrow> jsstring \<Rightarrow> error + jsstring" where
  "unescapeChar character string =
     (if length character \<noteq> 1 then Inl (AssertionError ''character must have length 1'')
      else let needle = percentCode character
           in case regExpLiteral (escapeForRegularExpression needle) of
               None \<Rightarrow> Inl (Unsupported ''RegExp'')
             | Some literal \<Rightarrow> Inr (replaceGlobal literal (\<lambda>_. character) string))"

text \<open>Whether \<open>needle\<close> occurs in \<open>s\<close> as a contiguous piece.\<close>

fun containsStr :: "jsstring \<Rightarrow> jsstring \<Rightarrow> bool" where
  "containsStr needle [] = (needle = [])"
| "containsStr needle (c # cs) = (prefix needle (c # cs) \<or> containsStr needle cs)"

section \<open>The asynchronous state loader (createTaskClusterMixin)\<close>

text \<open>
  The values a component stores and a computation settles with. \<open>JError m\<close> is an
  \<open>Error\<close> object with message \<open>m\<close>; \<open>JObject n\<close> is any other object, by identity.
\<close>

datatype jsval =
    JUndefined
  | JNull
  | JBool bool
  | JNum int
  | JNaN
  | JStr jsstring
  | JError string
  | JObject nat

text \<open>JavaScript truthiness, as \<open>!x\<close> and \<open>x || y\<close> read it.\<close>

fun truthy :: "jsval \<Rightarrow> bool" where
  "truthy JUndefined = False"
| "truthy JNull = False"
| "truthy (JBool b) = b"
| "truthy (JNum n) = (n \<noteq> 0)"
| "truthy JNaN = False"
| "truthy (JStr s) = (s \<noteq> [])"
| "truthy (JError m) = True"
| "truthy (JObject n) = True"

definition jsOr :: "jsval \<Rightarrow> jsval \<Rightarrow> jsval" where
  "jsOr x y = (if truthy x then x else y)"

text \<open>How a promise settles: the event the loader waits for.\<close>

datatype outcome = Resolve jsval | Reject jsval

text \<open>
  One pair of callbacks that \<open>loadState\<close> attached with \<open>then\<close>: the promise it waits
  for, the key, the number of the \<open>loadState\<close> call, and the call's local
  \<open>promisedStateIterationMap\<close> the callbacks close over.
\<close>

record registration =
  reg_promise :: nat
  reg_key :: string
  reg_call :: nat
  reg_iterations :: "string \<rightharpoonup> nat"

text \<open>
  The component: \<open>this.state\<close>, \<open>this.__promisedStateIterationMap\<close> (a missing map and
  the empty map are the same: the first \<open>loadState\<close> creates it empty), the callbacks
  still waiting, the keys of every \<open>loadState\<close> call so far, and the promises that
  \<open>then\<close> returned and that have settled, in the order they settled: \<open>Inr ()\<close> when the
  callback returned, \<open>Inl e\<close> when it threw \<open>e\<close>. Iteration counts are natural numbers.
\<close>

record loader =
  state :: "string \<rightharpoonup> jsval"
  promisedStateIterationMap :: "string \<rightharpoonup> nat"
  waiting :: "registration list"
  calls :: "string list list"
  settled :: "(nat \<times> string \<times> (error + unit)) list"

text \<open>\<open>this.state[k]\<close>: a missing key reads as \<open>undefined\<close>.\<close>

definition getState :: "(string \<rightharpoonup> jsval) \<Rightarrow> string \<Rightarrow> jsval" where
  "getState st k = (case st k of None \<Rightarrow> JUndefined | Some v \<Rightarrow> v)"

text \<open>\<open>this.setState(partial)\<close> merges the partial state into the state.\<close>

definition setState :: "(string \<rightharpoonup> jsval) \<Rightarrow> loader \<Rightarrow> loader" where
  "setState partial c = c\<lparr>state := state c ++ partial\<rparr>"

text \<open>
  The body of the \<open>_.forIn\<close> loop of \<open>loadState\<close> for one key: the loading triple goes
  into the local \<open>state\<close> object, the key's iteration is created at 0 when missing and
  incremented, and the local map remembers it.
\<close>

definition registerKey ::
  "string \<Rightarrow> (string \<rightharpoonup> jsval) \<times> (string \<rightharpoonup> nat) \<times> (string \<rightharpoonup> nat)
    \<Rightarrow> (string \<rightharpoonup> jsval) \<times> (string \<rightharpoonup> nat) \<times> (string \<rightharpoonup> nat)" where
  "registerKey key acc =
     (case acc of (st, this_map, local_map) \<Rightarrow>
        let st' = st(key @ ''Loaded'' \<mapsto> JBool False, key @ ''Error'' \<mapsto> JUndefined,
                     key \<mapsto> JUndefined);
            n = (case this_map key of None \<Rightarrow> 0 | Some i \<Rightarrow> i) + 1
        in (st', this_map(key \<mapsto> n), local_map(key \<mapsto> n)))"

fun registerKeys ::
  "string list \<Rightarrow> (string \<rightharpoonup> jsval) \<times> (string \<rightharpoonup> nat) \<times> (string \<rightharpoonup> nat)
    \<Rightarrow> (string \<rightharpoonup> jsval) \<times> (string \<rightharpoonup> nat) \<times> (string \<rightharpoonup> nat)" where
  "registerKeys [] acc = acc"
| "registerKeys (key # keys) acc = registerKeys keys (registerKey key acc)"

text \<open>
  \<open>loadState(promisedState)\<close>. The mapping is a list of keys with their promises, in
  the object's order. The call sets the loading state, attaches the callbacks and
  returns its promise, named by the number of the call; \<open>returnedPromise\<close> reads how that
  promise stands.
\<close>

definition loadState :: "(string \<times> nat) list \<Rightarrow> loader \<Rightarrow> nat \<times> loader" where
  "loadState promisedState c =
     (case registerKeys (map fst promisedState)
             (Map.empty, promisedStateIterationMap c, Map.empty) of
        (st, this_map, local_map) \<Rightarrow>
          let call = length (calls c);
              c1 = setState st (c\<lparr>promisedStateIterationMap := this_map\<rparr>);
              regs = map (\<lambda>(key, promise).
                        \<lparr>reg_promise = promise, reg_key = key, reg_call = call,
                         reg_iterations = local_map\<rparr>) promisedState
          in (call, c1\<lparr>waiting := waiting c1 @ regs,
                       calls := calls c1 @ [map fst promisedState]\<rparr>))"

text \<open>
  \<open>setLoaded(key, result, err)\<close>: the terminal triple is stored only when the iteration
  the call remembered for the key is still the current one.
\<close>

definition setLoaded ::
  "(string \<rightharpoonup> nat) \<Rightarrow> string \<Rightarrow> jsval \<Rightarrow> jsval \<Rightarrow> loader \<Rightarrow> loader" where
  "setLoaded local_map key result err c =
     (let currentIteration = promisedStateIterationMap c key
      in if local_map key = currentIteration
         then setState [key @ ''Loaded'' \<mapsto> JBool True, key @ ''Error'' \<mapsto> err,
                        key \<mapsto> result] c
         else c)"

text \<open>
  The two callbacks. The rejection callback first evaluates the arguments of its
  \<open>debug\<close> call, among them \<open>err.stack\<close>: reading a property of \<open>undefined\<close> or \<open>null\<close>
  throws a \<open>TypeError\<close>, and the callback ends there.
\<close>

definition onResolved :: "registration \<Rightarrow> jsval \<Rightarrow> loader \<Rightarrow> (error + unit) \<times> loader" where
  "onResolved r result c =
     (Inr (), setLoaded (reg_iterations r) (reg_key r) result JUndefined c)"

definition onRejected :: "registration \<Rightarrow> jsval \<Rightarrow> loader \<Rightarrow> (error + unit) \<times> loader" where
  "onRejected r err c =
     (if err = JUndefined \<or> err = JNull
      then (Inl (TypeError ''Cannot read property stack''), c)
      else (Inr (), setLoaded (reg_iterations r) (reg_key r) JUndefined
                      (jsOr err (JError ''Unknown Error'')) c))"

definition runCallback :: "outcome \<Rightarrow> registration \<Rightarrow> loader \<Rightarrow> loader" where
  "runCallback out r c =
     (case (case out of Resolve v \<Rightarrow> onResolved r v c | Reject e \<Rightarrow> onRejected r e c) of
        (res, c') \<Rightarrow> c'\<lparr>settled := settled c' @ [(reg_call r, reg_key r, res)]\<rparr>)"

text \<open>
  The promise \<open>promise\<close> settles: every callback waiting for it runs once, in the order
  of registration, and waits no longer.
\<close>

definition settle :: "nat \<Rightarrow> outcome \<Rightarrow> loader \<Rightarrow> loader" where
  "settle promise out c =
     fold (runCallback out) (filter (\<lambda>r. reg_promise r = promise) (waiting c))
       (c\<lparr>waiting := filter (\<lambda>r. reg_promise r \<noteq> promise) (waiting c)\<rparr>)"

text \<open>
  The promise a \<open>loadState\<close> call returned, \<open>Promise.all(promises).then(...)\<close>: rejected
  with the first error thrown by one of the call's callbacks, resolved (with
  \<open>undefined\<close>) when the callbacks of all its keys have returned, pending (\<open>None\<close>)
  otherwise.
\<close>

definition returnedPromise :: "loader \<Rightarrow> nat \<Rightarrow> (error + unit) option" where
  "returnedPromise c call =
     (let mine = filter (\<lambda>(cl, key, res). cl = call) (settled c)
      in case filter (\<lambda>(cl, key, res). isl res) mine of
           (cl, key, res) # rest \<Rightarrow> Some res
         | [] \<Rightarrow> (if call < length (calls c) \<and> length mine = length (calls c ! call)
                  then Some (Inr ()) else None))"

text \<open>A component that has loaded nothing yet.\<close>

definition newLoader :: loader where
  "newLoader = \<lparr>state = Map.empty, promisedStateIterationMap = Map.empty, waiting = [],
                 calls = [], settled = []\<rparr>"

text \<open>The triple of a property, as the rendering reads it.\<close>

definition propertyState :: "loader \<Rightarrow> string \<Rightarrow> jsval \<times> jsval \<times> jsval" where
  "propertyState c key =
     (getState (state c) (key @ ''Loaded''), getState (state c) (key @ ''Error''),
      getState (state c) key)"

subsection \<open>Runs of the loader\<close>

text \<open>The events of a component's life: a call of \<open>loadState\<close> and the settling of a promise.\<close>

datatype event = LoadState "(string \<times> nat) list" | Settle nat outcome

fun step :: "event \<Rightarrow> loader \<Rightarrow> loader" where
  "step (LoadState promisedState) c = snd (loadState promisedState c)"
| "step (Settle promise out) c = settle promise out c"

definition run :: "event list \<Rightarrow> loader \<Rightarrow> loader" where
  "run events c = fold step events c"

text \<open>The guard of \<open>setLoaded\<close> fails for a registration: the iteration it remembers for its
  key is not the current one.\<close>

definition stale :: "registration \<Rightarrow> loader \<Rightarrow> bool" where
  "stale r c = (reg_iterations r (reg_key r) \<noteq> promisedStateIterationMap c (reg_key r))"

text \<open>A registration remembers an iteration of its key that is at most the current one.\<close>

definition remembered :: "registration \<Rightarrow> (string \<rightharpoonup> nat) \<Rightarrow> bool" where
  "remembered r this_map =
     (case reg_iterations r (reg_key r) of
        None \<Rightarrow> False
      | Some n \<Rightarrow> (case this_map (reg_key r) of None \<Rightarrow> False | Some m \<Rightarrow> n \<le> m))"

text \<open>Every waiting registration remembers an iteration that is at most the current one.\<close>

definition bounded :: "loader \<Rightarrow> bool" where
  "bounded c = list_all (\<lambda>r. remembered r (promisedStateIterationMap c)) (waiting c)"

text \<open>A newer computation has been registered for the key of the registration.\<close>

definition superseded :: "registration \<Rightarrow> loader \<Rightarrow> bool" where
  "superseded r c =
     (case reg_iterations r (reg_key r) of
        None \<Rightarrow> False
      | Some n \<Rightarrow> (case promisedStateIterationMap c (reg_key r) of
                     None \<Rightarrow> False | Some m \<Rightarrow> n < m))"

text \<open>Whether the callback for an outcome returns or throws; it does not depend on the
  component.\<close>

definition callbackResult :: "outcome \<Rightarrow> error + unit" where
  "callbackResult out =
     (case out of
        Resolve v \<Rightarrow> Inr ()
      | Reject err \<Rightarrow> (if err = JUndefined \<or> err = JNull
                       then Inl (TypeError ''Cannot read property stack'') else Inr ()))"

text \<open>An event that is not a rejection with the reason \<open>undefined\<close> or \<open>null\<close>.\<close>

fun withReason :: "event \<Rightarrow> bool" where
  "withReason (LoadState promisedState) = True"
| "withReason (Settle promise (Resolve v)) = True"
| "withReason (Settle promise (Reject err)) = (err \<noteq> JUndefined \<and> err \<noteq> JNull)"

text \<open>No callback has thrown so far.\<close>

definition noneThrew :: "loader \<Rightarrow> bool" where
  "noneThrew c = list_all (\<lambda>(call, key, res). \<not> isl res) (settled c)"

text \<open>Every registration of a call is either waiting or settled: the calls of waiting and
  settled registrations exist, and for each call the two counts add up to the number of
  its keys.\<close>

definition accounted :: "loader \<Rightarrow> bool" where
  "accounted c =
     (list_all (\<lambda>r. reg_call r < length (calls c)) (waiting c) \<and>
      list_all (\<lambda>(call, key, res). call < length (calls c)) (settled c) \<and>
      list_all (\<lambda>call. length (filter (\<lambda>(cl, key, res). cl = call) (settled c)) +
                        length (filter (\<lambda>r. reg_call r = call) (waiting c))
                        = length (calls c ! call)) [0 ..< length (calls c)])"

section \<open>The subscription manager (createWebListenerMixin)\<close>

text \<open>A binding of an exchange, as \<open>taskcluster-client\<close> gives it to \<open>bind\<close>.\<close>

record binding =
  exchange :: string
  routingKeyPattern :: string

text \<open>
  A \<open>taskcluster.WebListener\<close> object, as far as this module drives it: the events
  that got a handler with \<open>on\<close>, the bindings given to \<open>bind\<close>, whether \<open>resume\<close> and
  \<open>close\<close> were called.
\<close>

record webListener =
  handlers :: "string list"
  bound :: "binding list"
  resumed :: bool
  closed :: bool

text \<open>
  The component: its state (\<open>listening\<close>, \<open>listeningError\<close>), \<open>this.__listener\<close>
  (\<open>None\<close> for \<open>null\<close> and \<open>undefined\<close>) and every \<open>WebListener\<close> constructed so far;
  a listener is named by its position in that list. \<open>setState\<close> merges, as on a mounted
  component.
\<close>

record subscriber =
  sub_state :: "string \<rightharpoonup> jsval"
  listener :: "nat option"
  listeners :: "webListener list"

text \<open>
  What a caller can pass as \<open>bindings\<close>: nothing, \<open>null\<close>, a number (the attach hook
  passes one) or an array.
\<close>

datatype bindingsArg = ArgUndefined | ArgNull | ArgNumber nat | ArgArray "binding list"

text \<open>
  The promises the module returns: \<open>Promise.resolve(undefined)\<close>, the promise chained on
  the binds (and the resume) of a listener, and the promise of its \<open>close\<close>.
\<close>

datatype promise = PromiseResolved jsval | PromiseListening nat | PromiseClosed nat

definition subSetState :: "(string \<rightharpoonup> jsval) \<Rightarrow> subscriber \<Rightarrow> subscriber" where
  "subSetState partial c = c\<lparr>sub_state := sub_state c ++ partial\<rparr>"

definition updateListener ::
  "nat \<Rightarrow> (webListener \<Rightarrow> webListener) \<Rightarrow> subscriber \<Rightarrow> subscriber" where
  "updateListener h f c =
     (if h < length (listeners c) then c\<lparr>listeners := (listeners c)[h := f (listeners c ! h)]\<rparr>
      else c)"

text \<open>\<open>!bindings || bindings.length === 0\<close>; a number has no \<open>length\<close>.\<close>

fun noBindings :: "bindingsArg \<Rightarrow> bool" where
  "noBindings ArgUndefined = True"
| "noBindings ArgNull = True"
| "noBindings (ArgNumber n) = (n = 0)"
| "noBindings (ArgArray bs) = (bs = [])"

text \<open>\<open>bindings.map(function(binding) { return this.__listener.bind(binding); })\<close>:
  only an array has \<open>map\<close>.\<close>

definition bindAll :: "bindingsArg \<Rightarrow> nat \<Rightarrow> subscriber \<Rightarrow> error + subscriber" where
  "bindAll arg h c =
     (case arg of
        ArgArray bs \<Rightarrow> Inr (updateListener h (\<lambda>l. l\<lparr>bound := bound l @ bs\<rparr>) c)
      | _ \<Rightarrow> Inl (TypeError ''bindings.map is not a function''))"

definition connecting :: "string \<rightharpoonup> jsval" where
  "connecting = [''listening'' \<mapsto> JNull, ''listeningError'' \<mapsto> JUndefined]"

definition connected :: "string \<rightharpoonup> jsval" where
  "connected = [''listening'' \<mapsto> JBool True, ''listeningError'' \<mapsto> JUndefined]"

text \<open>
  \<open>startListening(bindings)\<close>. The result is the promise returned or the error thrown;
  the component is returned as the call left it in both cases.
\<close>

definition startListening ::
  "bindingsArg \<Rightarrow> subscriber \<Rightarrow> (error + promise) \<times> subscriber" where
  "startListening arg c =
     (if noBindings arg then (Inr (PromiseResolved JUndefined), c)
      else case listener c of
        None \<Rightarrow>
          (let h = length (listeners c);
               c1 = c\<lparr>listeners := listeners c @
                         [\<lparr>handlers = [], bound = [], resumed = False, closed = False\<rparr>],
                       listener := Some h\<rparr>;
               c2 = updateListener h (\<lambda>l. l\<lparr>handlers := handlers l @ [''message'']\<rparr>) c1;
               c3 = updateListener h (\<lambda>l. l\<lparr>handlers := handlers l @ [''error'']\<rparr>) c2
           in case bindAll arg h c3 of
                Inl e \<Rightarrow> (Inl e, c3)
              | Inr c4 \<Rightarrow>
                  (Inr (PromiseListening h),
                   updateListener h (\<lambda>l. l\<lparr>resumed := True\<rparr>) (subSetState connecting c4)))
      | Some h \<Rightarrow>
          (let c1 = subSetState connecting c
           in case bindAll arg h c1 of
                Inl e \<Rightarrow> (Inl e, c1)
              | Inr c2 \<Rightarrow> (Inr (PromiseListening h), c2)))"

text \<open>\<open>stopListening()\<close>.\<close>

definition stopListening :: "subscriber \<Rightarrow> promise \<times> subscriber" where
  "stopListening c =
     (let c1 = subSetState [''listening'' \<mapsto> JBool False] c
      in case listener c1 of
           Some h \<Rightarrow>
             (PromiseClosed h,
              (updateListener h (\<lambda>l. l\<lparr>closed := True\<rparr>) c1)\<lparr>listener := None\<rparr>)
         | None \<Rightarrow> (PromiseResolved JUndefined, c1))"

text \<open>
  The callbacks of \<open>startListening\<close>: the one chained on success, the one chained on
  failure, and the handler of the listener's \<open>error\<close> event.
\<close>

definition onListening :: "subscriber \<Rightarrow> subscriber" where
  "onListening c = subSetState connected c"

definition onListenFailed :: "jsval \<Rightarrow> subscriber \<Rightarrow> promise \<times> subscriber" where
  "onListenFailed err c =
     (let err' = (if \<not> truthy err then JError ''Unknown error'' else err)
      in stopListening (subSetState [''listeningError'' \<mapsto> err'] c))"

definition onListenerError :: "jsval \<Rightarrow> subscriber \<Rightarrow> subscriber" where
  "onListenerError err c = snd (onListenFailed err c)"

text \<open>
  \<open>componentDidMount\<close> with the configured \<open>options.bindings\<close>: it calls
  \<open>this.startListening(options.bindings.length)\<close>.
\<close>

definition componentDidMount :: "binding list \<Rightarrow> subscriber \<Rightarrow> (error + unit) \<times> subscriber" where
  "componentDidMount options_bindings c =
     (let c1 = c\<lparr>listener := None\<rparr>
      in if length options_bindings > 0
         then (case startListening (ArgNumber (length options_bindings)) c1 of
                 (Inl e, c2) \<Rightarrow> (Inl e, c2)
               | (Inr p, c2) \<Rightarrow> (Inr (), c2))
         else (Inr (), c1))"

text \<open>A component before it is attached.\<close>

definition newSubscriber :: subscriber where
  "newSubscriber = \<lparr>sub_state = Map.empty, listener = None, listeners = []\<rparr>"

section \<open>The fragment synchronizer (createLocationHashMixin)\<close>

subsection \<open>encodeFragment and the platform's decodeURIComponent\<close>

text \<open>
  \<open>encodeFragment\<close> keeps the characters \<open>a-z A-Z 0-9 ! $ & ' ( ) * + , ; = : @ - . _ ~ ? /\<close>
  and replaces every other code unit by \<open>'%'\<close> followed by its value in hexadecimal.
\<close>

definition fragmentSafe :: "nat \<Rightarrow> bool" where
  "fragmentSafe c =
     ((97 \<le> c \<and> c \<le> 122) \<or> (65 \<le> c \<and> c \<le> 90) \<or> (48 \<le> c \<and> c \<le> 57) \<or>
      c \<in> set (lit ''!$&()*+,;=:@-._~?/'' @ [0x27]))"

fun encodeFragment :: "jsstring \<Rightarrow> jsstring" where
  "encodeFragment [] = []"
| "encodeFragment (c # cs) =
     (if fragmentSafe c then c # encodeFragment cs
      else code CHR ''%'' # lit (toString16 c) @ encodeFragment cs)"

text \<open>The value of a hexadecimal digit, of either case.\<close>

definition hexVal :: "nat \<Rightarrow> nat option" where
  "hexVal n =
     (if 48 \<le> n \<and> n \<le> 57 then Some (n - 48)
      else if 97 \<le> n \<and> n \<le> 102 then Some (n - 87)
      else if 65 \<le> n \<and> n \<le> 70 then Some (n - 55)
      else None)"

text \<open>A leading \<open>%XY\<close> with two hexadecimal digits: the byte and the rest.\<close>

fun percentByte :: "jsstring \<Rightarrow> (nat \<times> jsstring) option" where
  "percentByte (p # a # b # rest) =
     (if p = code CHR ''%'' then
        (case hexVal a of None \<Rightarrow> None
         | Some x \<Rightarrow> (case hexVal b of None \<Rightarrow> None | Some y \<Rightarrow> Some (16 * x + y, rest)))
      else None)"
| "percentByte s = None"

text \<open>
  The next \<open>k\<close> escapes, each a UTF-8 continuation byte (\<open>80\<close> to \<open>BF\<close>): the bytes and
  the rest.
\<close>

fun continuationBytes :: "nat \<Rightarrow> jsstring \<Rightarrow> (nat list \<times> jsstring) option" where
  "continuationBytes 0 s = Some ([], s)"
| "continuationBytes (Suc k) s =
     (case percentByte s of
        None \<Rightarrow> None
      | Some (b, rest) \<Rightarrow>
          if 128 \<le> b \<and> b < 192 then
            (case continuationBytes k rest of
               None \<Rightarrow> None
             | Some (bs, rest') \<Rightarrow> Some (b # bs, rest'))
          else None)"

text \<open>
  The code point that a lead byte (\<open>C0\<close> to \<open>F7\<close>) and its continuation bytes spell, when
  they are valid UTF-8: not an overlong form, not a surrogate, at most \<open>10FFFF\<close>.
\<close>

definition codePoint :: "nat \<Rightarrow> nat list \<Rightarrow> nat option" where
  "codePoint b bs =
     (let v = fold (\<lambda>c acc. acc * 64 + (c - 128)) bs
                (b - (if b < 224 then 192 else if b < 240 then 224 else 240));
          least = (if b < 224 then 128 else if b < 240 then 2048 else 65536)
      in if v < least \<or> (55296 \<le> v \<and> v \<le> 57343) \<or> 1114111 < v then None else Some v)"

text \<open>The code units of a code point: itself, or a surrogate pair from \<open>10000\<close> on.\<close>

definition utf16 :: "nat \<Rightarrow> jsstring" where
  "utf16 v =
     (if v < 65536 then [v]
      else [55296 + (v - 65536) div 1024, 56320 + (v - 65536) mod 1024])"

text \<open>
  One escape sequence at the head of the string: the code units it decodes to and the
  rest, or \<open>None\<close> where the platform throws a \<open>URIError\<close>. A byte below 128 is its
  character; a lead byte announces one, two or three continuation bytes.
\<close>

definition decodeEscape :: "jsstring \<Rightarrow> (jsstring \<times> jsstring) option" where
  "decodeEscape s =
     (case percentByte s of
        None \<Rightarrow> None
      | Some (b, rest) \<Rightarrow>
          if b < 128 then Some ([b], rest)
          else if b < 192 \<or> 248 \<le> b then None
          else (case continuationBytes
                       (if b < 224 then Suc 0 else if b < 240 then Suc (Suc 0)
                        else Suc (Suc (Suc 0))) rest of
                  None \<Rightarrow> None
                | Some (bs, rest') \<Rightarrow>
                    (case codePoint b bs of
                       None \<Rightarrow> None
                     | Some v \<Rightarrow> Some (utf16 v, rest'))))"

lemma percentByte_shorter: "percentByte s = Some (b, rest) \<Longrightarrow> length rest < length s"
  by (cases s rule: percentByte.cases) (auto split: if_splits option.splits)

lemma continuationBytes_shorter:
  "continuationBytes k s = Some (bs, rest) \<Longrightarrow> length rest \<le> length s"
proof (induction k arbitrary: s bs)
  case 0
  then show ?case by simp
next
  case (Suc k)
  from Suc.prems obtain b r bs' where b: "percentByte s = Some (b, r)"
    and r: "continuationBytes k r = Some (bs', rest)"
    by (auto split: option.splits if_splits)
  from Suc.IH [OF r] percentByte_shorter [OF b] show ?case by simp
qed

lemma decodeEscape_shorter: "decodeEscape s = Some (units, rest) \<Longrightarrow> length rest < length s"
proof -
  assume d: "decodeEscape s = Some (units, rest)"
  then obtain b r where b: "percentByte s = Some (b, r)"
    by (auto simp: decodeEscape_def split: option.splits)
  have "rest = r \<or> (\<exists>k bs. continuationBytes k r = Some (bs, rest))"
    using d b
    by (auto simp: decodeEscape_def simp del: continuationBytes.simps
          split: option.splits if_splits)
  then have "length rest \<le> length r"
    using continuationBytes_shorter by auto
  with percentByte_shorter [OF b] show ?thesis by simp
qed

text \<open>
  \<open>decodeURIComponent\<close> of the platform: every other code unit is kept, a \<open>'%'\<close> must
  start an escape sequence that spells UTF-8, and anything else throws a \<open>URIError\<close>.
\<close>

function decodeURIComponent :: "jsstring \<Rightarrow> error + jsstring" where
  "decodeURIComponent [] = Inr []"
| "decodeURIComponent (c # cs) =
     (if c \<noteq> code CHR ''%'' then map_sum id ((#) c) (decodeURIComponent cs)
      else case decodeEscape (c # cs) of
        None \<Rightarrow> Inl URIError
      | Some (units, rest) \<Rightarrow> map_sum id ((@) units) (decodeURIComponent rest))"
  by pat_completeness auto
termination decodeURIComponent
proof (relation "measure length")
  show "wf (measure length)" by simp
next
  fix c :: nat and cs
  show "(cs, c # cs) \<in> measure length" by simp
next
  fix c :: nat and cs x2 units rest
  assume "decodeEscape (c # cs) = Some x2" "(units, rest) = x2"
  then show "(rest, c # cs) \<in> measure length"
    using decodeEscape_shorter [of "c # cs" units rest] by simp
qed

text \<open>
  The code units whose escapes \<open>encodeFragment\<close> writes with two hexadecimal digits and
  as one byte: 16 to 127.
\<close>

definition plainChar :: "nat \<Rightarrow> bool" where
  "plainChar c = (16 \<le> c \<and> c < 128)"

subsection \<open>Splitting and joining the fragment\<close>

text \<open>\<open>s.split(sep)\<close> for a one-character separator: the empty string gives one empty
  piece.\<close>

fun split :: "nat \<Rightarrow> jsstring \<Rightarrow> jsstring list" where
  "split sep [] = [[]]"
| "split sep (c # cs) =
     (if c = sep then [] # split sep cs
      else case split sep cs of
             [] \<Rightarrow> [[c]]
           | piece # pieces \<Rightarrow> (c # piece) # pieces)"

text \<open>\<open>pieces.join(sep)\<close>.\<close>

fun join :: "jsstring \<Rightarrow> jsstring list \<Rightarrow> jsstring" where
  "join sep [] = []"
| "join sep [piece] = piece"
| "join sep (piece # other # pieces) = piece @ sep @ join sep (other # pieces)"

text \<open>\<open>fragments[i] || ''\<close>: a missing element reads as \<open>undefined\<close>.\<close>

definition fragmentAt :: "jsstring list \<Rightarrow> nat \<Rightarrow> jsstring" where
  "fragmentAt fragments i = (if i < length fragments then fragments ! i else [])"

text \<open>
  \<open>fragments[i] = v\<close>: past the end the array grows, and \<open>join\<close> reads the elements in
  between as empty strings.
\<close>

definition setFragment :: "jsstring list \<Rightarrow> nat \<Rightarrow> jsstring \<Rightarrow> jsstring list" where
  "setFragment fragments i v =
     (if i < length fragments then fragments[i := v]
      else fragments @ replicate (i - length fragments) [] @ [v])"

subsection \<open>The mixin\<close>

text \<open>
  The component: \<open>window.location.hash\<close>, \<open>this.props.hashIndex\<close>,
  \<open>this.__previousHashFragment\<close> (\<open>None\<close> for \<open>undefined\<close>) and \<open>this.state\<close>. Writing
  \<open>window.location.hash\<close> stores the string and reading it gives it back.
\<close>

record hashComponent =
  location_hash :: jsstring
  hashIndex :: nat
  previousHashFragment :: "jsstring option"
  hash_state :: "string \<rightharpoonup> jsval"

record hashOptions =
  save :: "hashComponent \<Rightarrow> jsval"
  load :: "jsstring \<Rightarrow> hashComponent \<Rightarrow> hashComponent"

text \<open>The default \<open>save\<close> and \<open>load\<close> for a state key and a default value.\<close>

definition defaultOptions :: "string \<Rightarrow> jsstring \<Rightarrow> hashOptions" where
  "defaultOptions key defaultValue =
     \<lparr>save = (\<lambda>c. jsOr (getState (hash_state c) key) (JStr defaultValue)),
      load = (\<lambda>data c.
        let v = jsOr (JStr data) (JStr defaultValue)
        in if getState (hash_state c) key \<noteq> v then c\<lparr>hash_state := (hash_state c)(key \<mapsto> v)\<rparr>
           else c)\<rparr>"

text \<open>The decoded segments of the current fragment.\<close>

definition currentFragments :: "hashComponent \<Rightarrow> error + jsstring list" where
  "currentFragments c =
     map_sum id (split (code CHR ''/'')) (decodeURIComponent (drop 1 (location_hash c)))"

text \<open>\<open>componentDidUpdate\<close>: the error thrown, or the component after the update.\<close>

definition componentDidUpdate :: "hashOptions \<Rightarrow> hashComponent \<Rightarrow> error + hashComponent" where
  "componentDidUpdate options c =
     (case currentFragments c of
        Inl e \<Rightarrow> Inl e
      | Inr fragments \<Rightarrow>
          let oldFragment = fragmentAt fragments (hashIndex c)
          in case jsOr (save options c) (JStr []) of
               JStr saved \<Rightarrow>
                 (case escapeChar (lit ''/'') saved of
                    Inl e \<Rightarrow> Inl e
                  | Inr newFragment \<Rightarrow>
                      if oldFragment \<noteq> newFragment
                      then Inr (c\<lparr>location_hash := code CHR ''#'' #
                             encodeFragment
                               (join (lit ''/'')
                                  (setFragment fragments (hashIndex c) newFragment))\<rparr>)
                      else Inr c)
             | _ \<Rightarrow> Inl (TypeError ''string.replace is not a function''))"

text \<open>
  \<open>handleHashChange\<close>: the error thrown, or the argument \<open>load\<close> was called with (\<open>None\<close>
  when it was not called) and the component after the call.
\<close>

definition handleHashChange ::
  "hashOptions \<Rightarrow> hashComponent \<Rightarrow> error + (jsstring option \<times> hashComponent)" where
  "handleHashChange options c =
     (case currentFragments c of
        Inl e \<Rightarrow> Inl e
      | Inr fragments \<Rightarrow>
          let fragment = fragmentAt fragments (hashIndex c)
          in if previousHashFragment c \<noteq> Some fragment
             then (case unescapeChar (lit ''/'') fragment of
                     Inl e \<Rightarrow> Inl e
                   | Inr data \<Rightarrow>
                       Inr (Some data, load options data (c\<lparr>previousHashFragment := Some fragment\<rparr>)))
             else Inr (None, c))"

definition componentWillMount ::
  "hashOptions \<Rightarrow> hashComponent \<Rightarrow> error + (jsstring option \<times> hashComponent)" where
  "componentWillMount options c = handleHashChange options (c\<lparr>previousHashFragment := None\<rparr>)"

section \<open>Properties of the escaping\<close>

lemma containsStr_sublist: "containsStr needle s = sublist needle s"
  by (induction s) (auto simp: sublist_Cons_right)

lemma lit_slash: "lit ''/'' = [47]" and lit_escaped_slash: "lit ''%2f'' = [37, 50, 102]"
  by (simp_all add: lit_def code_def)

lemma percentCode_slash: "percentCode (lit ''/'') = lit ''%2f''"
  by (simp add: lit_def code_def toString16.simps hexDigit_def)

text \<open>
  The regular expression built from an escaped string denotes that string, so the
  \<open>Unsupported\<close> branch of \<open>escapeChar\<close> and \<open>unescapeChar\<close> is never taken.
\<close>

lemma regExpLiteral_ordinary:
  "\<not> regexpSpecial c \<Longrightarrow> regExpLiteral (c # cs) = map_option ((#) c) (regExpLiteral cs)"
  by (cases cs) (auto simp: regexpSpecial_def)

lemma regExpLiteral_escaped: "regExpLiteral (escapeForRegularExpression s) = Some s"
  by (induction s) (simp_all add: regExpLiteral_ordinary)

lemma escapeChar_slash:
  "escapeChar (lit ''/'') s = Inr (replaceGlobal (lit ''/'') (\<lambda>c. lit ''%2f'') s)"
proof -
  have "replaceGlobal (lit ''/'') percentCode t = replaceGlobal (lit ''/'') (\<lambda>c. lit ''%2f'') t"
    for t
    using percentCode_slash by (induction t) (auto simp: lit_slash)
  then show ?thesis
    by (simp add: escapeChar_def regExpLiteral_escaped) (simp add: lit_slash)
qed

lemma unescapeChar_slash:
  "unescapeChar (lit ''/'') s = Inr (replaceGlobal (lit ''%2f'') (\<lambda>_. lit ''/'') s)"
  by (simp add: unescapeChar_def percentCode_slash regExpLiteral_escaped Let_def)
     (simp add: lit_slash)

lemma escaped_prefix:
  assumes "prefix [37, 50, 102] (c # replaceGlobal [47] (\<lambda>c. [37, 50, 102]) cs)"
    and "c \<noteq> 47"
  shows "prefix [37, 50, 102] (c # cs)"
proof (cases cs)
  case Nil
  with assms show ?thesis by simp
next
  case (Cons d ds)
  note cs = this
  show ?thesis
  proof (cases ds)
    case Nil
    with assms cs show ?thesis by (auto split: if_splits)
  next
    case (Cons e es)
    with assms cs show ?thesis by (auto split: if_splits)
  qed
qed

lemma unescape_escape_codes:
  "\<not> containsStr [37, 50, 102] s \<Longrightarrow>
   replaceGlobal [37, 50, 102] (\<lambda>_. [47]) (replaceGlobal [47] (\<lambda>c. [37, 50, 102]) s) = s"
proof (induction s)
  case Nil
  show ?case by simp
next
  case (Cons c cs)
  then have IH: "replaceGlobal [37, 50, 102] (\<lambda>_. [47])
                   (replaceGlobal [47] (\<lambda>c. [37, 50, 102]) cs) = cs"
    and np: "\<not> prefix [37, 50, 102] (c # cs)"
    by simp_all
  show ?case
  proof (cases "c = 47")
    case True
    then show ?thesis using IH by simp
  next
    case False
    with np escaped_prefix [of c cs]
    have "\<not> prefix [37, 50, 102] (c # replaceGlobal [47] (\<lambda>c. [37, 50, 102]) cs)" by blast
    with False IH show ?thesis by simp
  qed
qed

lemma unescape_escape_slash:
  "\<not> containsStr (lit ''%2f'') s \<Longrightarrow>
   replaceGlobal (lit ''%2f'') (\<lambda>_. lit ''/'')
     (replaceGlobal (lit ''/'') (\<lambda>c. lit ''%2f'') s) = s"
  by (simp add: lit_slash lit_escaped_slash unescape_escape_codes)

text \<open>
  C2. For every string \<open>s\<close> that does not contain the escape sequence \<open>%2f\<close> of the
  slash, escaping the slash and then unescaping it gives \<open>s\<close> back:
  \<open>unescapeChar('/', escapeChar('/', s)) = s\<close>.
\<close>

theorem unescapeChar_escapeChar_slash:
  "\<not> containsStr (lit ''%2f'') s \<Longrightarrow>
   (case escapeChar (lit ''/'') s of Inl e \<Rightarrow> Inl e | Inr t \<Rightarrow> unescapeChar (lit ''/'') t)
     = Inr s"
  by (simp add: escapeChar_slash unescapeChar_slash unescape_escape_slash)

theorem unescapeChar_escapeChar_slash_witness:
  "\<not> containsStr (lit ''%2f'') (lit ''task/run 1/50%'') \<and>
   escapeChar (lit ''/'') (lit ''task/run 1/50%'') = Inr (lit ''task%2frun 1%2f50%'') \<and>
   (case escapeChar (lit ''/'') (lit ''task/run 1/50%'') of
      Inl e \<Rightarrow> Inl e
    | Inr t \<Rightarrow> unescapeChar (lit ''/'') t)
     = Inr (lit ''task/run 1/50%'')"
  using unescapeChar_escapeChar_slash [of "lit ''task/run 1/50%''"]
  by (simp add: escapeChar_slash) (simp add: lit_def code_def)

section \<open>Properties of the state loader\<close>

lemma loadState_single:
  "loadState [(P, p)] c =
     (length (calls c),
      c\<lparr>state := state c ++ [P @ ''Loaded'' \<mapsto> JBool False, P @ ''Error'' \<mapsto> JUndefined,
                              P \<mapsto> JUndefined],
        promisedStateIterationMap := (promisedStateIterationMap c)
           (P \<mapsto> (case promisedStateIterationMap c P of None \<Rightarrow> 0 | Some i \<Rightarrow> i) + 1),
        waiting := waiting c @
          [\<lparr>reg_promise = p, reg_key = P, reg_call = length (calls c),
            reg_iterations =
              [P \<mapsto> (case promisedStateIterationMap c P of None \<Rightarrow> 0 | Some i \<Rightarrow> i) + 1]\<rparr>],
        calls := calls c @ [[P]]\<rparr>)"
  by (simp add: loadState_def registerKey_def setState_def Let_def)

lemma loadState_sets_loading:
  "propertyState (snd (loadState [(P, p)] c)) P = (JBool False, JUndefined, JUndefined)"
  by (simp add: loadState_single propertyState_def getState_def)

lemma not_waiting_none:
  "p \<notin> reg_promise ` set rs \<Longrightarrow> filter (\<lambda>r. reg_promise r = p) rs = []"
  by (induction rs) auto

lemma not_waiting_all:
  "p \<notin> reg_promise ` set rs \<Longrightarrow> filter (\<lambda>r. reg_promise r \<noteq> p) rs = rs"
  by (induction rs) auto

lemmas loader_steps =
  loadState_single settle_def not_waiting_none not_waiting_all runCallback_def
  onResolved_def onRejected_def setLoaded_def setState_def

text \<open>
  The stale-write guard: a computation registered for \<open>P\<close> and superseded by a second
  registration for \<open>P\<close> changes no state when it settles, however it settles.
\<close>

lemma superseded_is_ignored:
  assumes "p1 \<notin> reg_promise ` set (waiting c)" and "p1 \<noteq> p2"
  shows "state (settle p1 out (snd (loadState [(P, p2)] (snd (loadState [(P, p1)] c)))))
       = state (snd (loadState [(P, p2)] (snd (loadState [(P, p1)] c))))"
  using assms by (cases out) (simp_all add: loader_steps)

text \<open>The latest computation resolves: its result is stored.\<close>

lemma latest_resolved_is_stored:
  assumes "p2 \<notin> reg_promise ` set (waiting c)" and "p1 \<noteq> p2"
  shows "propertyState
           (settle p2 (Resolve v) (snd (loadState [(P, p2)] (snd (loadState [(P, p1)] c))))) P
         = (JBool True, JUndefined, v)"
  using assms by (simp add: loader_steps propertyState_def getState_def)

text \<open>
  The latest computation rejects with a reason other than \<open>undefined\<close> and \<open>null\<close>: the
  reason is stored, or the generic error when the reason is falsy.
\<close>

lemma latest_rejected_is_stored:
  assumes "p2 \<notin> reg_promise ` set (waiting c)" and "p1 \<noteq> p2"
    and "err \<noteq> JUndefined" and "err \<noteq> JNull"
  shows "propertyState
           (settle p2 (Reject err) (snd (loadState [(P, p2)] (snd (loadState [(P, p1)] c))))) P
         = (JBool True, jsOr err (JError ''Unknown Error''), JUndefined)"
  using assms by (simp add: loader_steps propertyState_def getState_def)

lemma rejected_with_reason:
  assumes "p \<notin> reg_promise ` set (waiting c)" and "err \<noteq> JUndefined" and "err \<noteq> JNull"
  shows "propertyState (settle p (Reject err) (snd (loadState [(P, p)] c))) P
         = (JBool True, jsOr err (JError ''Unknown Error''), JUndefined)"
  using assms by (simp add: loader_steps propertyState_def getState_def)

lemma falsy_reasons_give_generic_error:
  "jsOr (JStr []) (JError ''Unknown Error'') = JError ''Unknown Error''"
  "jsOr (JNum 0) (JError ''Unknown Error'') = JError ''Unknown Error''"
  "jsOr (JBool False) (JError ''Unknown Error'') = JError ''Unknown Error''"
  "jsOr JNaN (JError ''Unknown Error'') = JError ''Unknown Error''"
  by (simp_all add: jsOr_def)

text \<open>
  A rejection whose reason is \<open>undefined\<close> or \<open>null\<close>: the callback throws at
  \<open>err.stack\<close>, no state is stored, and the promise \<open>loadState\<close> returned is rejected.
\<close>

lemma rejected_without_reason:
  assumes "p \<notin> reg_promise ` set (waiting c)" and "err = JUndefined \<or> err = JNull"
  shows "state (settle p (Reject err) (snd (loadState [(P, p)] c)))
         = state (snd (loadState [(P, p)] c))"
  using assms by (auto simp add: loader_steps)

subsection \<open>The stale-write guard along any run\<close>

text \<open>
  Iterations only grow, and \<open>loadState\<close> gives each of its keys an iteration above the
  previous one. So once a newer computation is registered for the key of a waiting
  registration, the guard of \<open>setLoaded\<close> fails for it from then on, whatever happens in
  between, and its callback stores nothing. The callback of a registration that is still
  the current one stores its outcome, unless the outcome is a rejection without a reason.
  When no rejection lacks its reason, no promise returned by \<open>loadState\<close> is rejected,
  and it is resolved once all its callbacks have run.
\<close>

lemma registerKeys_grows:
  "registerKeys keys (st, m, l) = (st', m', l') \<Longrightarrow> m k = Some i \<Longrightarrow> \<exists>j. m' k = Some j \<and> i \<le> j"
proof (induction keys arbitrary: st m l i)
  case Nil
  then show ?case by simp
next
  case (Cons key keys)
  obtain st1 m1 l1 where r1: "registerKey key (st, m, l) = (st1, m1, l1)"
    by (cases "registerKey key (st, m, l)") auto
  then have "\<exists>i1. m1 k = Some i1 \<and> i \<le> i1"
    using Cons.prems(2) by (auto simp: registerKey_def Let_def split: option.splits)
  then obtain i1 where i1: "m1 k = Some i1" "i \<le> i1" by blast
  from Cons.prems(1) r1 have "registerKeys keys (st1, m1, l1) = (st', m', l')" by simp
  from Cons.IH [OF this i1(1)] i1(2) show ?case by auto
qed

lemma registerKeys_new:
  "registerKeys keys (st, m, l) = (st', m', l') \<Longrightarrow> k \<in> set keys \<Longrightarrow>
   \<exists>j. m' k = Some j \<and> l' k = Some j \<and> (case m k of None \<Rightarrow> 0 | Some i \<Rightarrow> i) < j"
proof (induction keys arbitrary: st m l)
  case Nil
  then show ?case by simp
next
  case (Cons key keys)
  obtain st1 m1 l1 where r1: "registerKey key (st, m, l) = (st1, m1, l1)"
    by (cases "registerKey key (st, m, l)") auto
  from Cons.prems(1) r1 have rest: "registerKeys keys (st1, m1, l1) = (st', m', l')" by simp
  show ?case
  proof (cases "k \<in> set keys")
    case True
    from Cons.IH [OF rest True] obtain j where j: "m' k = Some j" "l' k = Some j"
      "(case m1 k of None \<Rightarrow> 0 | Some i \<Rightarrow> i) < j" by blast
    have "(case m k of None \<Rightarrow> 0 | Some i \<Rightarrow> i) \<le> (case m1 k of None \<Rightarrow> 0 | Some i \<Rightarrow> i)"
      using r1 by (auto simp: registerKey_def Let_def split: option.splits if_splits)
    with j show ?thesis by auto
  next
    case False
    with Cons.prems(2) have k: "k = key" by simp
    have m1: "m1 k = Some ((case m k of None \<Rightarrow> 0 | Some i \<Rightarrow> i) + 1)"
      and l1: "l1 k = Some ((case m k of None \<Rightarrow> 0 | Some i \<Rightarrow> i) + 1)"
      using r1 k by (auto simp: registerKey_def Let_def)
    have keep: "registerKeys keys (st1, m1, l1) = (st', m', l') \<Longrightarrow> k \<notin> set keys \<Longrightarrow>
        m' k = m1 k \<and> l' k = l1 k" for keys st1 m1 l1
      by (induction keys arbitrary: st1 m1 l1) (auto simp: registerKey_def Let_def)
    from keep [OF rest False] m1 l1 show ?thesis by simp
  qed
qed

lemma loadState_fields:
  assumes "registerKeys (map fst promisedState) (Map.empty, promisedStateIterationMap c, Map.empty)
           = (st, this_map, local_map)"
  shows "snd (loadState promisedState c) =
     c\<lparr>state := state c ++ st,
       promisedStateIterationMap := this_map,
       waiting := waiting c @
         map (\<lambda>(key, promise). \<lparr>reg_promise = promise, reg_key = key,
                reg_call = length (calls c), reg_iterations = local_map\<rparr>) promisedState,
       calls := calls c @ [map fst promisedState]\<rparr>"
  using assms by (simp add: loadState_def setState_def Let_def)

lemma callbacks_keep_iterations:
  "promisedStateIterationMap (fold (runCallback out) rs c) = promisedStateIterationMap c \<and>
   waiting (fold (runCallback out) rs c) = waiting c"
  by (induction rs arbitrary: c)
     (auto simp: runCallback_def onResolved_def onRejected_def setLoaded_def setState_def Let_def
           split: outcome.splits)

lemma settle_keeps_iterations:
  "promisedStateIterationMap (settle promise out c) = promisedStateIterationMap c"
  by (simp add: settle_def callbacks_keep_iterations)

lemma settle_waiting:
  "waiting (settle promise out c) = filter (\<lambda>r. reg_promise r \<noteq> promise) (waiting c)"
  by (simp add: settle_def callbacks_keep_iterations)

lemma remembered_grows:
  assumes "remembered r m" and "\<And>k i. m k = Some i \<Longrightarrow> \<exists>j. m' k = Some j \<and> i \<le> j"
  shows "remembered r m'"
proof -
  from assms(1) obtain n i where n: "reg_iterations r (reg_key r) = Some n"
    and i: "m (reg_key r) = Some i" "n \<le> i"
    by (auto simp: remembered_def split: option.splits)
  from assms(2) [OF i(1)] obtain j where "m' (reg_key r) = Some j" "i \<le> j" by blast
  with n i(2) show ?thesis by (simp add: remembered_def)
qed

lemma bounded_loadState: "bounded c \<Longrightarrow> bounded (snd (loadState promisedState c))"
proof -
  assume b: "bounded c"
  obtain st this_map local_map where rk:
    "registerKeys (map fst promisedState) (Map.empty, promisedStateIterationMap c, Map.empty)
     = (st, this_map, local_map)"
    by (metis prod_cases3)
  have old: "remembered r this_map" if "r \<in> set (waiting c)" for r
  proof -
    from b that have "remembered r (promisedStateIterationMap c)"
      by (simp add: bounded_def list_all_iff)
    then show ?thesis
      using registerKeys_grows [OF rk] by (rule remembered_grows)
  qed
  have new: "remembered \<lparr>reg_promise = promise, reg_key = key, reg_call = n,
                reg_iterations = local_map\<rparr> this_map"
    if "(key, promise) \<in> set promisedState" for key promise n
  proof -
    from that have "key \<in> set (map fst promisedState)" by force
    from registerKeys_new [OF rk this] show ?thesis
      by (auto simp: remembered_def)
  qed
  show ?thesis
    using old new by (auto simp: bounded_def list_all_iff loadState_fields [OF rk])
qed

lemma bounded_settle: "bounded c \<Longrightarrow> bounded (settle promise out c)"
  by (simp add: bounded_def list_all_iff settle_keeps_iterations settle_waiting)

lemma bounded_step: "bounded c \<Longrightarrow> bounded (step e c)"
  by (cases e) (simp_all add: bounded_loadState bounded_settle)

lemma bounded_run: "bounded c \<Longrightarrow> bounded (run events c)"
  unfolding run_def by (induction events arbitrary: c) (simp_all add: bounded_step)

lemma bounded_newLoader: "bounded newLoader"
  by (simp add: bounded_def newLoader_def)

lemma stale_callback_stores_nothing: "stale r c \<Longrightarrow> state (runCallback out r c) = state c"
  by (auto simp: stale_def runCallback_def onResolved_def onRejected_def setLoaded_def Let_def
        split: outcome.splits)

lemma superseded_stale: "superseded r c \<Longrightarrow> stale r c"
  by (auto simp: superseded_def stale_def split: option.splits)

lemma loadState_supersedes:
  assumes "bounded c" and "r \<in> set (waiting c)" and "reg_key r \<in> fst ` set promisedState"
  shows "superseded r (snd (loadState promisedState c))"
proof -
  obtain st this_map local_map where rk:
    "registerKeys (map fst promisedState) (Map.empty, promisedStateIterationMap c, Map.empty)
     = (st, this_map, local_map)"
    by (metis prod_cases3)
  from assms(1,2) have "remembered r (promisedStateIterationMap c)"
    by (simp add: bounded_def list_all_iff)
  then obtain n i where n: "reg_iterations r (reg_key r) = Some n"
    and i: "promisedStateIterationMap c (reg_key r) = Some i" "n \<le> i"
    by (auto simp: remembered_def split: option.splits)
  from assms(3) have "reg_key r \<in> set (map fst promisedState)" by simp
  from registerKeys_new [OF rk this] i obtain j where "this_map (reg_key r) = Some j" "i < j"
    by auto
  with n i(2) show ?thesis
    by (simp add: superseded_def loadState_fields [OF rk])
qed

lemma superseded_step: "superseded r c \<Longrightarrow> superseded r (step e c)"
proof (cases e)
  case (LoadState promisedState)
  assume s: "superseded r c"
  obtain st this_map local_map where rk:
    "registerKeys (map fst promisedState) (Map.empty, promisedStateIterationMap c, Map.empty)
     = (st, this_map, local_map)"
    by (metis prod_cases3)
  from s obtain n i where n: "reg_iterations r (reg_key r) = Some n"
    and i: "promisedStateIterationMap c (reg_key r) = Some i" "n < i"
    by (auto simp: superseded_def split: option.splits)
  from registerKeys_grows [OF rk i(1)] obtain j where "this_map (reg_key r) = Some j" "i \<le> j"
    by blast
  with n i(2) LoadState show ?thesis
    by (simp add: superseded_def loadState_fields [OF rk])
next
  case (Settle promise out)
  assume "superseded r c"
  with Settle show ?thesis
    by (simp add: superseded_def settle_keeps_iterations cong: option.case_cong)
qed

lemma superseded_run: "superseded r c \<Longrightarrow> superseded r (run events c)"
  unfolding run_def by (induction events arbitrary: c) (simp_all add: superseded_step)

lemma superseded_never_stored:
  assumes "bounded c" and "r \<in> set (waiting c)" and "reg_key r \<in> fst ` set promisedState"
  shows "state (runCallback out r (run events (snd (loadState promisedState c))))
         = state (run events (snd (loadState promisedState c)))"
  using assms
  by (intro stale_callback_stores_nothing superseded_stale superseded_run loadState_supersedes)

lemma current_resolved_is_stored:
  "\<not> stale r c \<Longrightarrow>
   propertyState (runCallback (Resolve v) r c) (reg_key r) = (JBool True, JUndefined, v)"
  by (simp add: stale_def runCallback_def onResolved_def setLoaded_def setState_def
        propertyState_def getState_def)

lemma current_rejected_is_stored:
  "\<not> stale r c \<Longrightarrow> err \<noteq> JUndefined \<Longrightarrow> err \<noteq> JNull \<Longrightarrow>
   propertyState (runCallback (Reject err) r c) (reg_key r)
     = (JBool True, jsOr err (JError ''Unknown Error''), JUndefined)"
  by (simp add: stale_def runCallback_def onRejected_def setLoaded_def setState_def
        propertyState_def getState_def)

lemma rejected_without_reason_stores_nothing:
  "err = JUndefined \<or> err = JNull \<Longrightarrow> state (runCallback (Reject err) r c) = state c"
  by (auto simp: runCallback_def onRejected_def)

lemma callbacks_settled:
  "settled (fold (runCallback out) rs c)
   = settled c @ map (\<lambda>r. (reg_call r, reg_key r, callbackResult out)) rs"
  by (induction rs arbitrary: c)
     (auto simp: runCallback_def onResolved_def onRejected_def callbackResult_def
           setLoaded_def setState_def Let_def split: outcome.splits)

lemma settle_settled:
  "settled (settle promise out c)
   = settled c @ map (\<lambda>r. (reg_call r, reg_key r, callbackResult out))
       (filter (\<lambda>r. reg_promise r = promise) (waiting c))"
  by (simp add: settle_def callbacks_settled)

lemma callbacks_keep_calls: "calls (fold (runCallback out) rs c) = calls c"
  by (induction rs arbitrary: c)
     (auto simp: runCallback_def onResolved_def onRejected_def setLoaded_def setState_def Let_def
           split: outcome.splits)

lemma settle_calls: "calls (settle promise out c) = calls c"
  by (simp add: settle_def callbacks_keep_calls)

lemma loadState_settled: "settled (snd (loadState promisedState c)) = settled c"
  by (simp add: loadState_def setState_def Let_def split: prod.splits)

lemma noneThrew_step: "noneThrew c \<Longrightarrow> withReason e \<Longrightarrow> noneThrew (step e c)"
  by (cases e rule: withReason.cases)
     (auto simp: noneThrew_def loadState_settled settle_settled callbackResult_def list_all_iff)

lemma noneThrew_run: "noneThrew c \<Longrightarrow> list_all withReason events \<Longrightarrow> noneThrew (run events c)"
  unfolding run_def by (induction events arbitrary: c) (simp_all add: noneThrew_step)

lemma noneThrew_not_rejected: "noneThrew c \<Longrightarrow> returnedPromise c call \<noteq> Some (Inl e)"
proof -
  assume n: "noneThrew c"
  have "filter (\<lambda>(cl, key, res). isl res) (filter (\<lambda>(cl, key, res). cl = call) (settled c)) = []"
    using n by (auto simp: noneThrew_def list_all_iff filter_empty_conv)
  then show ?thesis
    by (simp add: returnedPromise_def Let_def)
qed

lemma filter_split_length:
  "length (filter P (filter Q xs)) + length (filter P (filter (\<lambda>x. \<not> Q x) xs))
   = length (filter P xs)"
  by (induction xs) auto

lemma accounted_settle: "accounted c \<Longrightarrow> accounted (settle promise out c)"
proof -
  assume a: "accounted c"
  have count: "length (filter (\<lambda>(cl, key, res). cl = call) (settled (settle promise out c))) +
        length (filter (\<lambda>r. reg_call r = call) (waiting (settle promise out c)))
      = length (filter (\<lambda>(cl, key, res). cl = call) (settled c)) +
        length (filter (\<lambda>r. reg_call r = call) (waiting c))" for call
  proof -
    have "filter (\<lambda>(cl, key, res). cl = call)
            (map (\<lambda>r. (reg_call r, reg_key r, callbackResult out))
               (filter (\<lambda>r. reg_promise r = promise) (waiting c)))
          = map (\<lambda>r. (reg_call r, reg_key r, callbackResult out))
              (filter (\<lambda>r. reg_call r = call) (filter (\<lambda>r. reg_promise r = promise) (waiting c)))"
      by (simp add: filter_map comp_def)
    then show ?thesis
      using filter_split_length [of "\<lambda>r. reg_call r = call" "\<lambda>r. reg_promise r = promise" "waiting c"]
      by (simp add: settle_settled settle_waiting)
  qed
  show ?thesis
    using a unfolding accounted_def
    by (simp add: count settle_calls) (auto simp add: settle_waiting settle_settled list_all_iff)
qed

lemma accounted_loadState: "accounted c \<Longrightarrow> accounted (snd (loadState promisedState c))"
proof -
  assume a: "accounted c"
  obtain st this_map local_map where rk:
    "registerKeys (map fst promisedState) (Map.empty, promisedStateIterationMap c, Map.empty)
     = (st, this_map, local_map)"
    by (metis prod_cases3)
  let ?c' = "snd (loadState promisedState c)"
  let ?regs = "map (\<lambda>(key, promise). \<lparr>reg_promise = promise, reg_key = key,
                reg_call = length (calls c), reg_iterations = local_map\<rparr>) promisedState"
  have w: "waiting ?c' = waiting c @ ?regs" and s: "settled ?c' = settled c"
    and cs: "calls ?c' = calls c @ [map fst promisedState]"
    by (simp_all add: loadState_fields [OF rk])
  from a have old_w: "\<forall>r\<in>set (waiting c). reg_call r < length (calls c)"
    and old_s: "\<forall>x\<in>set (settled c). fst x < length (calls c)"
    and old_n: "\<forall>call<length (calls c).
        length (filter (\<lambda>(cl, key, res). cl = call) (settled c)) +
        length (filter (\<lambda>r. reg_call r = call) (waiting c)) = length (calls c ! call)"
    by (auto simp: accounted_def list_all_iff)
  have regs_new: "filter (\<lambda>r. reg_call r = length (calls c)) ?regs = ?regs"
    by (induction promisedState) auto
  have regs_old: "filter (\<lambda>r. reg_call r = call) ?regs = []" if "call < length (calls c)" for call
    using that by (induction promisedState) auto
  have none_w: "filter (\<lambda>r. reg_call r = length (calls c)) (waiting c) = []"
    using old_w by (auto simp: filter_empty_conv)
  have none_s: "filter (\<lambda>(cl, key, res). cl = length (calls c)) (settled c) = []"
    using old_s by (auto simp: filter_empty_conv)
  have "length (filter (\<lambda>(cl, key, res). cl = call) (settled ?c')) +
        length (filter (\<lambda>r. reg_call r = call) (waiting ?c')) = length (calls ?c' ! call)"
    if "call < length (calls ?c')" for call
  proof (cases "call < length (calls c)")
    case True
    then show ?thesis using old_n regs_old [OF True] by (simp add: w s cs nth_append)
  next
    case False
    with that have "call = length (calls c)" by (simp add: cs)
    then show ?thesis using regs_new none_w none_s by (simp add: w s cs)
  qed
  moreover have "\<forall>r\<in>set (waiting ?c'). reg_call r < length (calls ?c')"
    using old_w by (auto simp: w cs)
  moreover have "\<forall>x\<in>set (settled ?c'). fst x < length (calls ?c')"
    using old_s by (auto simp: s cs)
  ultimately show ?thesis
    unfolding accounted_def list_all_iff by (auto simp del: snd_conv)
qed

lemma accounted_step: "accounted c \<Longrightarrow> accounted (step e c)"
  by (cases e) (simp_all add: accounted_loadState accounted_settle)

lemma accounted_run: "accounted c \<Longrightarrow> accounted (run events c)"
  unfolding run_def by (induction events arbitrary: c) (simp_all add: accounted_step)

lemma accounted_newLoader: "accounted newLoader"
  by (simp add: accounted_def newLoader_def)

lemma noneThrew_newLoader: "noneThrew newLoader"
  by (simp add: noneThrew_def newLoader_def)

lemma all_settled_resolves:
  assumes "accounted c" and "noneThrew c" and "call < length (calls c)"
    and "filter (\<lambda>r. reg_call r = call) (waiting c) = []"
  shows "returnedPromise c call = Some (Inr ())"
proof -
  have "filter (\<lambda>(cl, key, res). isl res) (filter (\<lambda>(cl, key, res). cl = call) (settled c)) = []"
    using assms(2) by (auto simp: noneThrew_def list_all_iff filter_empty_conv)
  moreover have "length (filter (\<lambda>(cl, key, res). cl = call) (settled c)) = length (calls c ! call)"
  proof -
    from assms(1) have "\<forall>call\<in>set [0 ..< length (calls c)].
        length (filter (\<lambda>(cl, key, res). cl = call) (settled c)) +
        length (filter (\<lambda>r. reg_call r = call) (waiting c)) = length (calls c ! call)"
      by (simp add: accounted_def list_all_iff)
    moreover from assms(3) have "call \<in> set [0 ..< length (calls c)]" by simp
    ultimately have "length (filter (\<lambda>(cl, key, res). cl = call) (settled c)) +
        length (filter (\<lambda>r. reg_call r = call) (waiting c)) = length (calls c ! call)"
      by blast
    with assms(4) show ?thesis by simp
  qed
  ultimately show ?thesis using assms(3)
    by (simp add: returnedPromise_def Let_def)
qed

lemma returned_promise_with_reasons:
  assumes "list_all withReason events"
  shows "returnedPromise (run events newLoader) call \<noteq> Some (Inl e)"
    and "call < length (calls (run events newLoader)) \<Longrightarrow>
         filter (\<lambda>r. reg_call r = call) (waiting (run events newLoader)) = [] \<Longrightarrow>
         returnedPromise (run events newLoader) call = Some (Inr ())"
  using assms noneThrew_run [OF noneThrew_newLoader] accounted_run [OF accounted_newLoader]
  by (simp_all add: noneThrew_not_rejected all_settled_resolves)

lemmas loader_run =
  loadState_def registerKey_def setState_def settle_def runCallback_def onResolved_def
  onRejected_def setLoaded_def propertyState_def getState_def returnedPromise_def jsOr_def
  newLoader_def Let_def

text \<open>
  C1. The claim: when \<open>C1\<close> and then \<open>C2\<close> are registered for \<open>P\<close>, the settling of \<open>C1\<close>
  leaves the state of \<open>P\<close> unchanged and the settling of \<open>C2\<close> makes it reflect the
  outcome of \<open>C2\<close>. The code at \<open>loadState({P: C1}); loadState({P: C2})\<close>, \<open>C1\<close> resolving
  with 5 and \<open>C2\<close> rejecting with no reason: the settling of \<open>C1\<close> leaves the triple of
  \<open>P\<close> as it was, and after the rejection of \<open>C2\<close> the triple is still the loading one,
  \<open>(false, undefined, undefined)\<close>.
\<close>

theorem superseded_then_rejection_without_reason:
  "propertyState
     (settle 1 (Resolve (JNum 5))
        (snd (loadState [(''P'', 2)] (snd (loadState [(''P'', 1)] newLoader))))) ''P''
   = propertyState (snd (loadState [(''P'', 2)] (snd (loadState [(''P'', 1)] newLoader)))) ''P''
   \<and> propertyState
     (settle 2 (Reject JUndefined)
        (settle 1 (Resolve (JNum 5))
           (snd (loadState [(''P'', 2)] (snd (loadState [(''P'', 1)] newLoader)))))) ''P''
   = (JBool False, JUndefined, JUndefined)"
  by (simp add: loader_run)

text \<open>
  C7. The claim: a rejection with an empty or missing reason gives \<open>PLoaded = true\<close>,
  \<open>PError\<close> the generic error and \<open>P = undefined\<close>. The code at
  \<open>loadState({P: C})\<close> with \<open>C\<close> rejecting with \<open>undefined\<close>, and with \<open>null\<close>: the
  triple of \<open>P\<close> stays \<open>(false, undefined, undefined)\<close>; with the empty string as the
  reason the generic error is stored.
\<close>

theorem rejection_without_reason_stays_loading:
  "propertyState (settle 1 (Reject JUndefined) (snd (loadState [(''P'', 1)] newLoader))) ''P''
     = (JBool False, JUndefined, JUndefined)
   \<and> propertyState (settle 1 (Reject JNull) (snd (loadState [(''P'', 1)] newLoader))) ''P''
     = (JBool False, JUndefined, JUndefined)
   \<and> propertyState (settle 1 (Reject (JStr [])) (snd (loadState [(''P'', 1)] newLoader))) ''P''
     = (JBool True, JError ''Unknown Error'', JUndefined)"
  by (simp add: loader_run)

text \<open>
  C8. The claim: the promise returned by \<open>loadState\<close> always resolves once the
  computations have settled. The code at \<open>loadState({P: C})\<close> with \<open>C\<close> rejecting with
  \<open>undefined\<close>: the promise returned by the call (call 0) is rejected with the
  \<open>TypeError\<close> of the callback; with a reason it resolves.
\<close>

theorem rejection_without_reason_rejects_returned_promise:
  "returnedPromise (settle 1 (Reject JUndefined) (snd (loadState [(''P'', 1)] newLoader))) 0
     = Some (Inl (TypeError ''Cannot read property stack''))
   \<and> returnedPromise (settle 1 (Reject (JError ''timeout'')) (snd (loadState [(''P'', 1)] newLoader))) 0
     = Some (Inr ())
   \<and> returnedPromise (snd (loadState [(''P'', 1)] newLoader)) 0 = None"
  by (simp add: loader_run)

section \<open>Properties of the subscription manager\<close>

lemmas subscriber_steps =
  startListening_def stopListening_def bindAll_def updateListener_def subSetState_def
  connecting_def Let_def

text \<open>The first call opens a listener: handlers, binds, state, resume.\<close>

lemma startListening_opens:
  assumes "bs \<noteq> []" and "listener c = None"
  shows "startListening (ArgArray bs) c =
     (Inr (PromiseListening (length (listeners c))),
      c\<lparr>sub_state := sub_state c ++ connecting,
        listener := Some (length (listeners c)),
        listeners := listeners c @
          [\<lparr>handlers = [''message'', ''error''], bound = bs, resumed = True,
            closed = False\<rparr>]\<rparr>)"
  using assms by (simp add: subscriber_steps)

text \<open>A call on an open listener binds the new bindings on it and creates nothing.\<close>

lemma startListening_binds_more:
  assumes "bs \<noteq> []" and "listener c = Some h" and "h < length (listeners c)"
  shows "startListening (ArgArray bs) c =
     (Inr (PromiseListening h),
      c\<lparr>sub_state := sub_state c ++ connecting,
        listeners := (listeners c)[h := (listeners c ! h)\<lparr>bound := bound (listeners c ! h) @ bs\<rparr>]\<rparr>)"
  using assms by (simp add: subscriber_steps)

text \<open>The success callback of the first call changes neither the listener nor its binds.\<close>

lemma onListening_keeps_listener:
  "listener (onListening c) = listener c \<and> listeners (onListening c) = listeners c"
  by (simp add: onListening_def subSetState_def)

text \<open>After a failure the listener is closed and released: the next call opens a new one.\<close>

lemma onListenFailed_releases:
  "listener (snd (onListenFailed err c)) = None"
  by (simp add: onListenFailed_def subscriber_steps split: option.splits)

text \<open>
  Two calls on a component whose listener is already open construct nothing: the open
  listener gets the bindings of both calls.
\<close>

lemma startListening_twice_open:
  assumes "F1 \<noteq> []" and "F2 \<noteq> []" and "listener c = Some h" and "h < length (listeners c)"
  shows "listener (snd (startListening (ArgArray F2) (snd (startListening (ArgArray F1) c))))
       = Some h \<and>
     listeners (snd (startListening (ArgArray F2) (snd (startListening (ArgArray F1) c))))
       = (listeners c)[h := (listeners c ! h)\<lparr>bound := bound (listeners c ! h) @ F1 @ F2\<rparr>]"
  using assms by (simp add: startListening_binds_more)

text \<open>
  C3. Calling \<open>startListening\<close> with a non-empty list \<open>F1\<close> and then again with a
  non-empty list \<open>F2\<close>, on a component with no subscription open: both calls return their
  promise, exactly one listener object has been constructed, it is the component's
  listener, it has its message and error handlers, and it is bound to the bindings of
  \<open>F1\<close> followed by those of \<open>F2\<close>, that is to every binding of the union of the two
  lists (whether or not they are disjoint).
\<close>

theorem startListening_twice:
  assumes "F1 \<noteq> []" and "F2 \<noteq> []" and "listener c = None"
  shows "fst (startListening (ArgArray F1) c) = Inr (PromiseListening (length (listeners c))) \<and>
     fst (startListening (ArgArray F2) (snd (startListening (ArgArray F1) c)))
       = Inr (PromiseListening (length (listeners c))) \<and>
     listener (snd (startListening (ArgArray F2) (snd (startListening (ArgArray F1) c))))
       = Some (length (listeners c)) \<and>
     listeners (snd (startListening (ArgArray F2) (snd (startListening (ArgArray F1) c))))
       = listeners c @
          [\<lparr>handlers = [''message'', ''error''], bound = F1 @ F2, resumed = True,
            closed = False\<rparr>] \<and>
     set (bound (listeners (snd (startListening (ArgArray F2)
            (snd (startListening (ArgArray F1) c)))) ! length (listeners c)))
       = set F1 \<union> set F2"
  using assms by (simp add: startListening_opens startListening_binds_more)

theorem startListening_twice_witness:
  "[\<lparr>exchange = ''task-running'', routingKeyPattern = ''#''\<rparr>] \<noteq> [] \<and>
   [\<lparr>exchange = ''task-completed'', routingKeyPattern = ''#''\<rparr>] \<noteq> [] \<and>
   listener newSubscriber = None \<and>
   listener (snd (startListening (ArgArray [\<lparr>exchange = ''task-completed'', routingKeyPattern = ''#''\<rparr>])
      (snd (startListening (ArgArray [\<lparr>exchange = ''task-running'', routingKeyPattern = ''#''\<rparr>])
         newSubscriber)))) = Some 0 \<and>
   listeners (snd (startListening (ArgArray [\<lparr>exchange = ''task-completed'', routingKeyPattern = ''#''\<rparr>])
      (snd (startListening (ArgArray [\<lparr>exchange = ''task-running'', routingKeyPattern = ''#''\<rparr>])
         newSubscriber))))
    = [\<lparr>handlers = [''message'', ''error''],
        bound = [\<lparr>exchange = ''task-running'', routingKeyPattern = ''#''\<rparr>,
                 \<lparr>exchange = ''task-completed'', routingKeyPattern = ''#''\<rparr>],
        resumed = True, closed = False\<rparr>]"
  using startListening_twice [of "[\<lparr>exchange = ''task-running'', routingKeyPattern = ''#''\<rparr>]"
      "[\<lparr>exchange = ''task-completed'', routingKeyPattern = ''#''\<rparr>]" newSubscriber]
  by (simp add: newSubscriber_def)

text \<open>
  The attach hook with a non-empty configured list, on any component: the listener is
  constructed and gets its handlers, then \<open>bindings.map\<close> throws, because the argument is
  the length of the list. Nothing is bound, \<open>resume\<close> is not called and the state is not
  touched.
\<close>

lemma componentDidMount_throws:
  "bs \<noteq> [] \<Longrightarrow> componentDidMount bs c =
     (Inl (TypeError ''bindings.map is not a function''),
      c\<lparr>listener := Some (length (listeners c)),
        listeners := listeners c @
          [\<lparr>handlers = [''message'', ''error''], bound = [], resumed = False,
            closed = False\<rparr>]\<rparr>)"
  by (simp add: componentDidMount_def subscriber_steps)

text \<open>
  C4. The claim: on attach with a non-empty configured list the manager opens a
  subscription, registers the handlers and binds every configured binding. The code at
  \<open>options.bindings\<close> holding one binding: \<open>componentDidMount\<close> throws a \<open>TypeError\<close>, and
  the listener it leaves has the two handlers and no binding.
\<close>

theorem componentDidMount_binds_nothing:
  "componentDidMount [\<lparr>exchange = ''task-running'', routingKeyPattern = ''#''\<rparr>] newSubscriber =
     (Inl (TypeError ''bindings.map is not a function''),
      \<lparr>sub_state = Map.empty, listener = Some 0,
       listeners = [\<lparr>handlers = [''message'', ''error''], bound = [], resumed = False,
                     closed = False\<rparr>]\<rparr>)"
  by (simp add: componentDidMount_def subscriber_steps newSubscriber_def)

text \<open>
  C5. Calling \<open>stopListening\<close> when no subscription is open returns the resolved promise
  (nothing is thrown), stores \<open>listening = false\<close> and changes nothing else; calling it
  again gives the same.
\<close>

theorem stopListening_nothing_open:
  assumes "listener c = None"
  shows "stopListening c =
       (PromiseResolved JUndefined, c\<lparr>sub_state := (sub_state c)(''listening'' \<mapsto> JBool False)\<rparr>) \<and>
     getState (sub_state (snd (stopListening c))) ''listening'' = JBool False \<and>
     stopListening (snd (stopListening c)) = stopListening c"
  using assms by (simp add: subscriber_steps getState_def)

theorem stopListening_nothing_open_witness:
  "listener newSubscriber = None \<and>
   stopListening newSubscriber =
     (PromiseResolved JUndefined,
      \<lparr>sub_state = [''listening'' \<mapsto> JBool False], listener = None, listeners = []\<rparr>) \<and>
   stopListening (snd (stopListening newSubscriber)) = stopListening newSubscriber"
  using stopListening_nothing_open [of newSubscriber]
  by (simp add: newSubscriber_def subscriber_steps)

text \<open>Whatever was open, nothing is open after \<open>stopListening\<close>.\<close>

lemma stopListening_releases: "listener (snd (stopListening c)) = None"
  by (simp add: subscriber_steps split: option.splits)

text \<open>
  C10. \<open>startListening\<close> with a missing, \<open>null\<close> or empty list of bindings returns the
  resolved promise and leaves the component as it is: no listener is constructed and the
  state (\<open>listening\<close>, \<open>listeningError\<close>) is not touched.
\<close>

theorem startListening_nothing_to_bind:
  "startListening ArgUndefined c = (Inr (PromiseResolved JUndefined), c) \<and>
   startListening ArgNull c = (Inr (PromiseResolved JUndefined), c) \<and>
   startListening (ArgArray []) c = (Inr (PromiseResolved JUndefined), c)"
  by (simp add: startListening_def)

section \<open>Properties of the fragment synchronizer\<close>

subsection \<open>Where encodeFragment and decodeURIComponent agree\<close>

text \<open>
  A code from 16 to 255 is written with two hexadecimal digits, which read back as the
  same byte; below 128 that byte is the code unit. So a string of plain code units
  survives \<open>encodeFragment\<close> followed by \<open>decodeURIComponent\<close>.
\<close>

lemma hexVal_hexDigit: "d < 16 \<Longrightarrow> hexVal (code (hexDigit d)) = Some d"
proof -
  assume "d < 16"
  then have "d = 0 \<or> d = 1 \<or> d = 2 \<or> d = 3 \<or> d = 4 \<or> d = 5 \<or> d = 6 \<or> d = 7 \<or> d = 8 \<or>
    d = 9 \<or> d = 10 \<or> d = 11 \<or> d = 12 \<or> d = 13 \<or> d = 14 \<or> d = 15" by arith
  then show ?thesis
    by (auto simp: hexVal_def hexDigit_def code_def)
qed

lemma toString16_two_digits:
  "16 \<le> n \<Longrightarrow> n < 256 \<Longrightarrow> toString16 n = [hexDigit (n div 16), hexDigit (n mod 16)]"
  by (subst toString16.simps) (simp add: toString16.simps [of "n div 16"] less_mult_imp_div_less)

lemma percentByte_encoded:
  assumes "16 \<le> n" "n < 256"
  shows "percentByte (code CHR ''%'' # lit (toString16 n) @ rest) = Some (n, rest)"
  using assms
  by (simp add: toString16_two_digits hexVal_hexDigit less_mult_imp_div_less lit_def)

lemma safe_not_percent: "fragmentSafe c \<Longrightarrow> c \<noteq> code CHR ''%''"
  by (auto simp: fragmentSafe_def lit_def code_def)

lemma decode_encodeFragment:
  "list_all plainChar s \<Longrightarrow> decodeURIComponent (encodeFragment s) = Inr s"
proof (induction s)
  case Nil
  show ?case by simp
next
  case (Cons c cs)
  then have IH: "decodeURIComponent (encodeFragment cs) = Inr cs"
    and c: "16 \<le> c" "c < 128"
    by (simp_all add: plainChar_def)
  show ?case
  proof (cases "fragmentSafe c")
    case True
    then show ?thesis using IH safe_not_percent [of c] by simp
  next
    case False
    have "percentByte (code CHR ''%'' # lit (toString16 c) @ encodeFragment cs)
          = Some (c, encodeFragment cs)"
      using c by (intro percentByte_encoded) auto
    then show ?thesis using False IH c
      by (simp add: decodeEscape_def)
  qed
qed


subsection \<open>split and join\<close>

text \<open>
  \<open>split\<close> gives at least one piece, no piece holds the separator, and \<open>join\<close> and
  \<open>split\<close> undo each other on pieces without the separator.
\<close>

lemma split_nonempty: "split sep s \<noteq> []"
  by (induction s) (auto split: list.splits)

lemma split_pieces: "piece \<in> set (split sep s) \<Longrightarrow> sep \<notin> set piece"
proof (induction s arbitrary: piece)
  case Nil
  then show ?case by simp
next
  case (Cons c cs)
  show ?case
  proof (cases "c = sep")
    case True
    with Cons show ?thesis by auto
  next
    case False
    obtain p ps where ps: "split sep cs = p # ps"
      using split_nonempty [of sep cs] by (cases "split sep cs") auto
    with Cons.prems False have "piece = c # p \<or> piece \<in> set ps" by simp
    then show ?thesis
    proof
      assume "piece = c # p"
      moreover have "sep \<notin> set p" using Cons.IH [of p] ps by simp
      ultimately show ?thesis using False by auto
    next
      assume "piece \<in> set ps"
      then show ?thesis using Cons.IH [of piece] ps by simp
    qed
  qed
qed

lemma split_no_sep: "sep \<notin> set s \<Longrightarrow> split sep s = [s]"
  by (induction s) auto

lemma split_append_sep:
  "sep \<notin> set piece \<Longrightarrow> split sep (piece @ sep # rest) = piece # split sep rest"
  by (induction piece) auto

lemma split_join:
  "pieces \<noteq> [] \<Longrightarrow> list_all (\<lambda>piece. sep \<notin> set piece) pieces \<Longrightarrow>
   split sep (join [sep] pieces) = pieces"
proof (induction "[sep]" pieces rule: join.induct)
  case 1
  then show ?case by simp
next
  case (2 piece)
  then show ?case by (simp add: split_no_sep)
next
  case (3 piece other pieces)
  then show ?case by (simp add: split_append_sep)
qed

lemma join_split: "join [sep] (split sep s) = s"
proof (induction s)
  case Nil
  show ?case by simp
next
  case (Cons c cs)
  obtain p ps where ps: "split sep cs = p # ps"
    using split_nonempty [of sep cs] by (cases "split sep cs") auto
  show ?case
  proof (cases "c = sep")
    case True
    with Cons ps show ?thesis by simp
  next
    case False
    with Cons ps show ?thesis by (cases ps) auto
  qed
qed

subsection \<open>Writing one segment\<close>

text \<open>The assignment changes the segment at its index and no segment before the end.\<close>

lemma setFragment_other:
  "j \<noteq> i \<Longrightarrow> j < length fragments \<Longrightarrow> setFragment fragments i v ! j = fragments ! j"
  by (simp add: setFragment_def nth_append)

lemma setFragment_own: "fragmentAt (setFragment fragments i v) i = v"
  by (simp add: setFragment_def fragmentAt_def nth_append)

lemma setFragment_nonempty: "setFragment fragments i v \<noteq> []"
  by (auto simp add: setFragment_def)

lemma lit_slash_code: "lit ''/'' = [code CHR ''/'']"
  by (simp add: lit_def)

lemma escaped_no_slash: "code CHR ''/'' \<notin> set (replaceGlobal (lit ''/'') (\<lambda>c. lit ''%2f'') s)"
  by (induction s) (auto simp: lit_slash lit_escaped_slash code_def)


lemma join_chars: "set (join sep pieces) \<subseteq> set sep \<union> \<Union> (set ` set pieces)"
  by (induction sep pieces rule: join.induct) auto

lemma split_chars: "piece \<in> set (split sep s) \<Longrightarrow> set piece \<subseteq> set s"
proof (induction s arbitrary: piece)
  case Nil
  then show ?case by simp
next
  case (Cons c cs)
  obtain p ps where ps: "split sep cs = p # ps"
    using split_nonempty [of sep cs] by (cases "split sep cs") auto
  show ?case
  proof (cases "c = sep")
    case True
    with Cons show ?thesis by auto
  next
    case False
    with Cons.prems ps have "piece = c # p \<or> piece \<in> set ps" by simp
    then show ?thesis using Cons.IH [of p] Cons.IH [of piece] ps by auto
  qed
qed

lemma setFragment_pieces:
  "piece \<in> set (setFragment fragments i v) \<Longrightarrow> piece \<in> set fragments \<or> piece = [] \<or> piece = v"
proof (cases "i < length fragments")
  case True
  assume "piece \<in> set (setFragment fragments i v)"
  with True have "piece \<in> insert v (set fragments)"
    using set_update_subset_insert [of fragments i v] by (auto simp: setFragment_def)
  then show ?thesis by auto
next
  case False
  assume "piece \<in> set (setFragment fragments i v)"
  with False show ?thesis by (auto simp: setFragment_def)
qed

lemma escaped_chars:
  "set (replaceGlobal (lit ''/'') (\<lambda>c. lit ''%2f'') s) \<subseteq> set s \<union> set (lit ''%2f'')"
  by (induction s) (auto simp: lit_slash lit_escaped_slash)

lemma plain_literals: "list_all plainChar (lit ''/'')" "list_all plainChar (lit ''%2f'')"
  by (simp_all add: plainChar_def lit_def code_def)

text \<open>
  What \<open>componentDidUpdate\<close> writes when the saved value, escaped, differs from the
  segment in the fragment.
\<close>

lemma componentDidUpdate_rewrites:
  assumes "currentFragments c = Inr fragments"
    and "jsOr (save options c) (JStr []) = JStr saved"
    and "fragmentAt fragments (hashIndex c) \<noteq> replaceGlobal (lit ''/'') (\<lambda>c. lit ''%2f'') saved"
  shows "componentDidUpdate options c =
     Inr (c\<lparr>location_hash := code CHR ''#'' # encodeFragment (join (lit ''/'')
            (setFragment fragments (hashIndex c) (replaceGlobal (lit ''/'') (\<lambda>c. lit ''%2f'') saved)))\<rparr>)"
  using assms by (simp add: componentDidUpdate_def escapeChar_slash)

text \<open>
  When the decoded fragment and the saved value are made of plain characters, the
  fragment written by the update decodes to the old segments with the one at
  \<open>hashIndex\<close> replaced.
\<close>

lemma componentDidUpdate_read_back:
  assumes dec: "decodeURIComponent (drop 1 (location_hash c)) = Inr hash"
    and sv: "jsOr (save options c) (JStr []) = JStr saved"
    and ph: "list_all plainChar hash" and ps: "list_all plainChar saved"
    and upd: "componentDidUpdate options c = Inr c'"
    and ne: "fragmentAt (split (code CHR ''/'') hash) (hashIndex c) \<noteq> replaceGlobal (lit ''/'') (\<lambda>c. lit ''%2f'') saved"
  shows "currentFragments c' =
     Inr (setFragment (split (code CHR ''/'') hash) (hashIndex c) (replaceGlobal (lit ''/'') (\<lambda>c. lit ''%2f'') saved))"
proof -
  let ?new = "replaceGlobal (lit ''/'') (\<lambda>c. lit ''%2f'') saved"
  let ?fs = "setFragment (split (code CHR ''/'') hash) (hashIndex c) ?new"
  have cf: "currentFragments c = Inr (split (code CHR ''/'') hash)"
    using dec by (simp add: currentFragments_def)
  have c': "c' = c\<lparr>location_hash := code CHR ''#'' # encodeFragment (join (lit ''/'') ?fs)\<rparr>"
    using componentDidUpdate_rewrites [OF cf sv ne] upd by simp
  have new_plain: "\<forall>ch\<in>set ?new. plainChar ch"
    using escaped_chars [of saved] ps plain_literals by (auto simp: list_all_iff)
  have pieces: "\<forall>piece\<in>set ?fs. (\<forall>ch\<in>set piece. plainChar ch) \<and> code CHR ''/'' \<notin> set piece"
  proof
    fix piece assume "piece \<in> set ?fs"
    then consider "piece \<in> set (split (code CHR ''/'') hash)" | "piece = []" | "piece = ?new"
      using setFragment_pieces by blast
    then show "(\<forall>ch\<in>set piece. plainChar ch) \<and> code CHR ''/'' \<notin> set piece"
    proof cases
      case 1
      then show ?thesis using split_chars [of piece "code CHR ''/''" hash]
          split_pieces [of piece "code CHR ''/''" hash] ph
        by (auto simp: list_all_iff)
    next
      case 2
      then show ?thesis by simp
    next
      case 3
      then show ?thesis using new_plain escaped_no_slash [of saved] by simp
    qed
  qed
  have "list_all plainChar (join (lit ''/'') ?fs)"
    using join_chars [of "lit ''/''" ?fs] pieces plain_literals by (auto simp: list_all_iff)
  then have "decodeURIComponent (encodeFragment (join (lit ''/'') ?fs)) = Inr (join (lit ''/'') ?fs)"
    by (rule decode_encodeFragment)
  moreover have "split (code CHR ''/'') (join (lit ''/'') ?fs) = ?fs"
    using pieces setFragment_nonempty [of "split (code CHR ''/'') hash" "hashIndex c" ?new]
    unfolding lit_slash_code by (intro split_join) (auto simp: list_all_iff)
  ultimately show ?thesis
    by (simp add: c' currentFragments_def)
qed

text \<open>Under the same conditions every other segment reads back as it was.\<close>

lemma componentDidUpdate_keeps_other_segments:
  assumes "decodeURIComponent (drop 1 (location_hash c)) = Inr hash"
    and "jsOr (save options c) (JStr []) = JStr saved"
    and "list_all plainChar hash" and "list_all plainChar saved"
    and "componentDidUpdate options c = Inr c'"
    and "fragmentAt (split (code CHR ''/'') hash) (hashIndex c) \<noteq> replaceGlobal (lit ''/'') (\<lambda>c. lit ''%2f'') saved"
    and "j \<noteq> hashIndex c" and "j < length (split (code CHR ''/'') hash)"
  shows "map_sum id (\<lambda>fragments. fragments ! j) (currentFragments c')
         = Inr (split (code CHR ''/'') hash ! j)"
  using componentDidUpdate_read_back [OF assms(1-6)] assms(7,8)
  by (simp add: setFragment_other)

subsection \<open>What a notification does\<close>

text \<open>
  The default \<open>load\<close> does not touch the remembered value, so after a notification that
  called it the remembered value is the segment, and a second notification on the same
  fragment calls nothing.
\<close>

lemma default_load_keeps_remembered:
  "previousHashFragment (load (defaultOptions key defaultValue) data c) = previousHashFragment c"
  by (simp add: defaultOptions_def Let_def)

lemma notification_remembers_segment:
  assumes "handleHashChange (defaultOptions key defaultValue) c = Inr (Some data, c')"
    and "currentFragments c = Inr fragments"
  shows "previousHashFragment c' = Some (fragmentAt fragments (hashIndex c))"
  using assms
  by (auto simp: handleHashChange_def Let_def default_load_keeps_remembered
        split: if_splits sum.splits)

lemma default_load_keeps_fragment:
  "location_hash (load (defaultOptions key defaultValue) data c) = location_hash c \<and>
   hashIndex (load (defaultOptions key defaultValue) data c) = hashIndex c"
  by (simp add: defaultOptions_def Let_def)

lemma second_notification_calls_nothing:
  assumes "handleHashChange (defaultOptions key defaultValue) c = Inr (called, c')"
  shows "handleHashChange (defaultOptions key defaultValue) c' = Inr (None, c')"
proof -
  from assms obtain fragments where cf: "currentFragments c = Inr fragments"
    by (cases "currentFragments c") (auto simp: handleHashChange_def)
  have same: "currentFragments c' = currentFragments c \<and> hashIndex c' = hashIndex c"
    using assms cf
    by (auto simp: handleHashChange_def Let_def currentFragments_def default_load_keeps_fragment
          split: if_splits sum.splits)
  have "previousHashFragment c' = Some (fragmentAt fragments (hashIndex c))"
    using assms cf
    by (auto simp: handleHashChange_def Let_def default_load_keeps_remembered
          split: if_splits sum.splits)
  with same cf show ?thesis
    by (simp add: handleHashChange_def)
qed

lemmas fragment_run =
  componentDidUpdate_def handleHashChange_def componentWillMount_def currentFragments_def
  fragmentAt_def setFragment_def defaultOptions_def jsOr_def getState_def
  escapeChar_slash [unfolded lit_slash lit_escaped_slash]
  unescapeChar_slash [unfolded lit_slash lit_escaped_slash]
  fragmentSafe_def hexVal_def toString16.simps hexDigit_def decodeEscape_def codePoint_def
  utf16_def lit_def code_def Let_def

text \<open>
  The example of the specification: with segment 2 of \<open>#a/b/old/d\<close> and the state saying
  \<open>new\<close>, the update writes \<open>#a/b/new/d\<close>, and a component mounted on that fragment calls
  \<open>load\<close> with \<open>new\<close>.
\<close>

lemma fragment_example:
  "componentDidUpdate (defaultOptions ''view'' [])
     \<lparr>location_hash = lit ''#a/b/old/d'', hashIndex = 2, previousHashFragment = Some (lit ''old''),
      hash_state = [''view'' \<mapsto> JStr (lit ''new'')]\<rparr>
   = Inr \<lparr>location_hash = lit ''#a/b/new/d'', hashIndex = 2, previousHashFragment = Some (lit ''old''),
          hash_state = [''view'' \<mapsto> JStr (lit ''new'')]\<rparr>"
  "map_sum id fst (componentWillMount (defaultOptions ''view'' [])
     \<lparr>location_hash = lit ''#a/b/new/d'', hashIndex = 2, previousHashFragment = None,
      hash_state = Map.empty\<rparr>) = Inr (Some (lit ''new''))"
  by (simp_all add: fragment_run)

text \<open>
  C6. The claim: the update replaces only the segment at \<open>hashIndex\<close> and leaves every
  other segment of the fragment unchanged. The code at the fragment \<open>#caf%C3%A9/old\<close>
  (first segment \<open>caf\<close> followed by the code unit \<open>E9\<close>), \<open>hashIndex = 1\<close> and the state
  saying \<open>new\<close>: the update writes \<open>#caf%e9/new\<close>, so the first segment is rewritten too,
  and the fragment no longer decodes: the next notification throws a \<open>URIError\<close>.
\<close>

theorem componentDidUpdate_rewrites_other_segment:
  "currentFragments
     \<lparr>location_hash = lit ''#caf%C3%A9/old'', hashIndex = 1, previousHashFragment = Some (lit ''old''),
      hash_state = [''view'' \<mapsto> JStr (lit ''new'')]\<rparr>
   = Inr [lit ''caf'' @ [0xE9], lit ''old''] \<and>
   componentDidUpdate (defaultOptions ''view'' [])
     \<lparr>location_hash = lit ''#caf%C3%A9/old'', hashIndex = 1, previousHashFragment = Some (lit ''old''),
      hash_state = [''view'' \<mapsto> JStr (lit ''new'')]\<rparr>
   = Inr \<lparr>location_hash = lit ''#caf%e9/new'', hashIndex = 1, previousHashFragment = Some (lit ''old''),
      hash_state = [''view'' \<mapsto> JStr (lit ''new'')]\<rparr> \<and>
   handleHashChange (defaultOptions ''view'' [])
     \<lparr>location_hash = lit ''#caf%e9/new'', hashIndex = 1, previousHashFragment = Some (lit ''old''),
      hash_state = [''view'' \<mapsto> JStr (lit ''new'')]\<rparr>
   = Inl URIError"
  by (simp add: fragment_run)

text \<open>
  C9, as amended. On a fragment-change notification: when the fragment does not decode,
  the error of \<open>decodeURIComponent\<close> is thrown and \<open>load\<close> is not called; otherwise \<open>load\<close>
  is called exactly when the decoded segment at \<open>hashIndex\<close> differs from the remembered
  value (nothing is remembered before the first notification). When it differs, the
  segment becomes the remembered value and \<open>load\<close> is called with the unescaped segment;
  when it is equal, nothing changes. The remembered value is assigned only there: the
  module's own write of the fragment in \<open>componentDidUpdate\<close> leaves it as it was.
\<close>

theorem handleHashChange_invokes_load_iff:
  "(\<exists>data c'. handleHashChange options c = Inr (Some data, c')) =
     (\<exists>fragments. currentFragments c = Inr fragments \<and>
        previousHashFragment c \<noteq> Some (fragmentAt fragments (hashIndex c))) \<and>
   (case handleHashChange options c of
      Inl e \<Rightarrow> currentFragments c = Inl e
    | Inr (called, c') \<Rightarrow>
        (case currentFragments c of
           Inl e \<Rightarrow> False
         | Inr fragments \<Rightarrow>
             (case called of
                None \<Rightarrow>
                  previousHashFragment c = Some (fragmentAt fragments (hashIndex c)) \<and> c' = c
              | Some data \<Rightarrow>
                  unescapeChar (lit ''/'') (fragmentAt fragments (hashIndex c)) = Inr data \<and>
                  c' = load options data
                         (c\<lparr>previousHashFragment :=
                              Some (fragmentAt fragments (hashIndex c))\<rparr>)))) \<and>
   (case componentDidUpdate options c of
      Inl e \<Rightarrow> True
    | Inr c' \<Rightarrow> previousHashFragment c' = previousHashFragment c)"
proof -
  have written: "(case componentDidUpdate options c of
      Inl e \<Rightarrow> True
    | Inr c' \<Rightarrow> previousHashFragment c' = previousHashFragment c)"
    by (auto simp: componentDidUpdate_def Let_def split: sum.splits jsval.splits)
  show ?thesis
  proof (cases "currentFragments c")
    case (Inl e)
    with written show ?thesis by (simp add: handleHashChange_def)
  next
    case (Inr fragments)
    with written show ?thesis
      by (simp add: handleHashChange_def unescapeChar_slash Let_def)
  qed
qed

text \<open>
  The notification that follows the module's own write. The remembered value is \<open>old\<close>
  and the fragment is \<open>#tasks/old\<close>: a notification calls nothing. The state now says
  \<open>new\<close>: the update writes \<open>#tasks/new\<close>, and the notification triggered by that write
  calls \<open>load\<close> with \<open>new\<close>.
\<close>

theorem own_write_notification_invokes_load:
  "handleHashChange (defaultOptions ''view'' [])
     \<lparr>location_hash = lit ''#tasks/old'', hashIndex = 1, previousHashFragment = Some (lit ''old''),
      hash_state = [''view'' \<mapsto> JStr (lit ''new'')]\<rparr>
   = Inr (None,
       \<lparr>location_hash = lit ''#tasks/old'', hashIndex = 1, previousHashFragment = Some (lit ''old''),
        hash_state = [''view'' \<mapsto> JStr (lit ''new'')]\<rparr>) \<and>
   componentDidUpdate (defaultOptions ''view'' [])
     \<lparr>location_hash = lit ''#tasks/old'', hashIndex = 1, previousHashFragment = Some (lit ''old''),
      hash_state = [''view'' \<mapsto> JStr (lit ''new'')]\<rparr>
   = Inr \<lparr>location_hash = lit ''#tasks/new'', hashIndex = 1, previousHashFragment = Some (lit ''old''),
      hash_state = [''view'' \<mapsto> JStr (lit ''new'')]\<rparr> \<and>
   handleHashChange (defaultOptions ''view'' [])
     \<lparr>location_hash = lit ''#tasks/new'', hashIndex = 1, previousHashFragment = Some (lit ''old''),
      hash_state = [''view'' \<mapsto> JStr (lit ''new'')]\<rparr>
   = Inr (Some (lit ''new''),
       \<lparr>location_hash = lit ''#tasks/new'', hashIndex = 1, previousHashFragment = Some (lit ''new''),
        hash_state = [''view'' \<mapsto> JStr (lit ''new'')]\<rparr>)"
  by (simp add: fragment_run)

end
